theory Spec2Isabelle
  imports Main "HOL-Library.Word" "HOL-Library.Multiset"
begin

section \<open>Hierarchical integer K-means (vl/hikmeans.c)\<close>

text \<open>
  The C file builds and queries a tree of integer K-means filters. The embedding keeps the
  C names. C \<open>int\<close> values (\<open>N\<close>, \<open>M\<close>, \<open>K\<close>, \<open>height\<close>, loop counters) are \<open>int\<close>; the
  arithmetic of the file (\<open>count ++\<close>, \<open>i * M\<close>, \<open>i * depth + d\<close>) is bounded by the sizes of
  the arrays it indexes, which are taken to fit a C \<open>int\<close>. Labels (\<open>vl_uint\<close>) are
  \<open>32 word\<close>. An array is a list; a data array of \<open>N\<close> points of dimension \<open>M\<close> is the flat
  list of its \<open>N * M\<close> elements, whose element type \<open>vl_ikm_data\<close> (declared in ikmeans.h)
  is the type parameter \<open>'d\<close>.
\<close>

type_synonym vl_uint = "32 word"

subsection \<open>Memory helpers\<close>

text \<open>
  \<open>vl_malloc\<close> returns a pointer to a block whose content is indeterminate, or the null
  pointer \<open>None\<close>. The content of a fresh cell is the parameter \<open>fresh\<close>, so a result that
  does not depend on \<open>fresh\<close> has every cell written. The callers compute the size as a
  \<open>size_t\<close> product with an \<open>int\<close> count: a negative count wraps to a size that no
  allocation serves, and the pointer is null. A request for zero cells is taken to return a
  non-null pointer to an empty block, as the C library allocators in common use do.
\<close>

definition vl_malloc :: "'a \<Rightarrow> int \<Rightarrow> 'a list option" where
  "vl_malloc fresh n = (if n < 0 then None else Some (replicate (nat n) fresh))"

text \<open>
  \<open>memcpy (dst + doff, src + soff, n)\<close> on arrays of cells: the \<open>n\<close> cells of \<open>src\<close> from
  \<open>soff\<close> on overwrite the cells of \<open>dst\<close> from \<open>doff\<close> on.
\<close>

definition memcpy :: "'a list \<Rightarrow> int \<Rightarrow> 'a list \<Rightarrow> int \<Rightarrow> int \<Rightarrow> 'a list" where
  "memcpy dst doff src soff n =
     take (nat doff) dst @ take (nat n) (drop (nat soff) src) @ drop (nat doff + nat n) dst"

subsection \<open>vl_hikm_copy_subset (lines 46-76)\<close>

text \<open>
  The first loop (lines 56-58) counts the labels equal to \<open>label\<close>, the parameter \<open>id\<close> of
  the C function. The loops read \<open>ids [i]\<close> and the datum \<open>i\<close> for \<open>i < N\<close>: the arrays
  are to hold \<open>N\<close> labels and \<open>N * M\<close> data elements, which the theorems on the function
  state as hypotheses; a read outside an array has no defined behaviour in C.
\<close>

function copy_subset_count :: "vl_uint list \<Rightarrow> int \<Rightarrow> vl_uint \<Rightarrow> int \<Rightarrow> int \<Rightarrow> int" where
  "copy_subset_count ids N label i cnt =
     (if i < N
      then copy_subset_count ids N label (i + 1) (if ids ! nat i = label then cnt + 1 else cnt)
      else cnt)"
  by pat_completeness auto
termination
  by (relation "measure (\<lambda>(ids, N, label, i, cnt). nat (N - i))") auto

declare copy_subset_count.simps [simp del]

text \<open>The second loop (lines 65-72) copies each selected datum behind the previous one.\<close>

function copy_subset_copy ::
  "'d list \<Rightarrow> vl_uint list \<Rightarrow> int \<Rightarrow> int \<Rightarrow> vl_uint \<Rightarrow> int \<Rightarrow> int \<Rightarrow> 'd list \<Rightarrow> 'd list \<times> int"
where
  "copy_subset_copy data ids N M label i cnt new_data =
     (if i < N
      then (if ids ! nat i = label
            then copy_subset_copy data ids N M label (i + 1) (cnt + 1)
                   (memcpy new_data (cnt * M) data (i * M) M)
            else copy_subset_copy data ids N M label (i + 1) cnt new_data)
      else (new_data, cnt))"
  by pat_completeness auto
termination
  by (relation "measure (\<lambda>(data, ids, N, M, label, i, cnt, new_data). nat (N - i))") auto

declare copy_subset_copy.simps [simp del]

text \<open>
  The function returns the buffer together with the value stored in \<open>*N2\<close>. The block is
  null only for \<open>M < 0\<close> with a label that matches; the copies of line 68 then go through
  the null pointer with a negative length and have no defined behaviour in C. The model
  runs them on the empty buffer; the theorems on the function assume \<open>0 \<le> M\<close>.
\<close>

definition vl_hikm_copy_subset ::
  "'d \<Rightarrow> 'd list \<Rightarrow> vl_uint list \<Rightarrow> int \<Rightarrow> int \<Rightarrow> vl_uint \<Rightarrow> 'd list \<times> int"
where
  "vl_hikm_copy_subset fresh data ids N M label =
     (let cnt = copy_subset_count ids N label 0 0;
          new_data = (case vl_malloc fresh (M * cnt) of None \<Rightarrow> [] | Some block \<Rightarrow> block)
      in copy_subset_copy data ids N M label 0 0 new_data)"

text \<open>The \<open>i\<close>-th point of a flat data array, and the indices a label selects.\<close>

definition point :: "int \<Rightarrow> 'd list \<Rightarrow> nat \<Rightarrow> 'd list" where
  "point M data i = take (nat M) (drop (i * nat M) data)"

definition labelled :: "vl_uint list \<Rightarrow> int \<Rightarrow> vl_uint \<Rightarrow> nat list" where
  "labelled ids N label = filter (\<lambda>i. ids ! i = label) [0..<nat N]"

text \<open>The points of a flat data array of \<open>N\<close> points.\<close>

definition points_of :: "int \<Rightarrow> 'd list \<Rightarrow> int \<Rightarrow> 'd list list" where
  "points_of M data N = map (point M data) [0..<nat N]"

subsection \<open>The collaborators declared outside hikmeans.c\<close>

text \<open>
  The integer K-means filter (ikmeans.h, ikmeans.c) and the allocator are not part of this
  file. They are parameters of the model, collected in one record; \<open>'f\<close> is the type of a
  filter and \<open>'s\<close> the state that the training calls may read and change (the random
  generator that \<open>vl_ikm_init_rand_data\<close> draws from). A filter function takes the filter
  and returns the changed filter where the C function updates it in place; \<open>fresh_data\<close>
  is the content of a data cell that \<open>vl_malloc\<close> returns.
\<close>

text \<open>
  Modelled from the spec: \<open>vl_ikm_push\<close>, the assignment call of the flat clustering
  engine, is missing from the sources. The specification has it give the nearest-center
  label per point and mutate no state of the engine: its model labels one point, as a
  function of the filter and the point. \<open>vl_ikm_get_K\<close>, also missing, reads the number of
  centers of a filter.
\<close>

record ('d, 'f, 's) ikm =
  vl_ikm_new :: "int \<Rightarrow> 'f"
  vl_ikm_set_max_niters :: "'f \<Rightarrow> int \<Rightarrow> 'f"
  vl_ikm_set_verbosity :: "'f \<Rightarrow> int \<Rightarrow> 'f"
  vl_ikm_init_rand_data :: "'f \<Rightarrow> 'd list \<Rightarrow> int \<Rightarrow> int \<Rightarrow> int \<Rightarrow> 's \<Rightarrow> 'f \<times> 's"
  vl_ikm_train :: "'f \<Rightarrow> 'd list \<Rightarrow> int \<Rightarrow> 's \<Rightarrow> 'f \<times> 's"
  vl_ikm_push :: "'f \<Rightarrow> 'd list \<Rightarrow> vl_uint"
  vl_ikm_get_K :: "'f \<Rightarrow> int"
  fresh_data :: 'd

text \<open>\<open>vl_ikm_push (filter, ids, data, N)\<close>: the labels of the \<open>N\<close> points of \<open>data\<close>.\<close>

definition vl_ikm_push_all ::
  "('d, 'f, 's) ikm \<Rightarrow> 'f \<Rightarrow> 'd list \<Rightarrow> int \<Rightarrow> int \<Rightarrow> vl_uint list" where
  "vl_ikm_push_all ikm flt data M N = map (\<lambda>i. vl_ikm_push ikm flt (point M data i)) [0..<nat N]"

subsection \<open>VlHIKMNode and VlHIKMTree (hikmeans.h)\<close>

text \<open>
  A node holds a pointer to its filter (\<open>None\<close> is the null pointer) and a pointer to its
  array of child pointers (\<open>None\<close> is the null pointer, which marks a leaf). A node pointer
  is null, points to a node, or is \<open>Indeterminate\<close>: the content of an array cell that
  \<open>vl_malloc\<close> returned and nothing wrote.
\<close>

datatype 'f VlHIKMNode =
  VlHIKMNode (node_filter: "'f option") (node_children: "'f node_ptr list option")
and 'f node_ptr = Null | Indeterminate | Ptr "'f VlHIKMNode"

record 'f VlHIKMTree =
  hikm_M :: int
  hikm_K :: int
  hikm_max_niters :: int
  hikm_method :: int
  hikm_verb :: int
  hikm_depth :: int
  hikm_root :: "'f node_ptr"

definition vl_hikm_get_ndims :: "'f VlHIKMTree \<Rightarrow> int" where
  "vl_hikm_get_ndims f = hikm_M f"

definition vl_hikm_get_depth :: "'f VlHIKMTree \<Rightarrow> int" where
  "vl_hikm_get_depth f = hikm_depth f"

subsection \<open>xmeans (lines 90-135)\<close>

text \<open>Lines 98 and 101-105: the filter of the node, trained, and the labels of the data.\<close>

definition xmeans_filter ::
  "('d, 'f, 's) ikm \<Rightarrow> 'f VlHIKMTree \<Rightarrow> 'd list \<Rightarrow> int \<Rightarrow> int \<Rightarrow> 's \<Rightarrow> 'f \<times> 's" where
  "xmeans_filter ikm tree data N K s =
     (let filter0 = vl_ikm_new ikm (hikm_method tree);
          filter1 = vl_ikm_set_max_niters ikm filter0 (hikm_max_niters tree);
          filter2 = vl_ikm_set_verbosity ikm filter1 (hikm_verb tree - 1);
          (filter3, s1) = vl_ikm_init_rand_data ikm filter2 data (hikm_M tree) N K s
      in vl_ikm_train ikm filter3 data N s1)"

text \<open>
  The call of lines 115-116: the partition of the label \<open>k\<close>, an \<open>int\<close> that the call
  converts to \<open>vl_uint\<close>.
\<close>

definition copy_subset_of ::
  "('d, 'f, 's) ikm \<Rightarrow> 'd list \<Rightarrow> vl_uint list \<Rightarrow> int \<Rightarrow> int \<Rightarrow> int \<Rightarrow> 'd list \<times> int" where
  "copy_subset_of ikm data ids N M k =
     vl_hikm_copy_subset (fresh_data ikm) data ids N M (word_of_int k)"

text \<open>
  \<open>xmeans\<close> returns the node and the state after training it and its descendants. Line 99
  allocates the children array unless \<open>height = 1\<close>; for \<open>K < 0\<close> the pointer is null and
  the loop of line 110 has no round. \<open>xmeans_children\<close> is that loop from \<open>k\<close> on, over the
  array \<open>children\<close>; the loop stands under \<open>if (height > 1)\<close> (line 108), which its
  condition repeats. The progress line that lines 125-129 print changes nothing else and is
  left out.
\<close>

function xmeans ::
    "('d, 'f, 's) ikm \<Rightarrow> 'f VlHIKMTree \<Rightarrow> 'd list \<Rightarrow> int \<Rightarrow> int \<Rightarrow> int \<Rightarrow> 's
       \<Rightarrow> 'f VlHIKMNode \<times> 's"
  and xmeans_children ::
    "('d, 'f, 's) ikm \<Rightarrow> 'f VlHIKMTree \<Rightarrow> 'd list \<Rightarrow> vl_uint list \<Rightarrow> int \<Rightarrow> int \<Rightarrow> int \<Rightarrow> int
       \<Rightarrow> 'f node_ptr list \<Rightarrow> 's \<Rightarrow> 'f node_ptr list \<times> 's"
where
  "xmeans ikm tree data N K height s =
     (let (flt, s1) = xmeans_filter ikm tree data N K s;
          ids = vl_ikm_push_all ikm flt data (hikm_M tree) N;
          children_ptr = (if height = 1 then None else vl_malloc Indeterminate K)
      in if height > 1
         then (case children_ptr of
                 None \<Rightarrow> (VlHIKMNode (Some flt) None, s1)
               | Some cells \<Rightarrow>
                   (let (children, s2) =
                          xmeans_children ikm tree data ids N K height 0 cells s1
                    in (VlHIKMNode (Some flt) (Some children), s2)))
         else (VlHIKMNode (Some flt) children_ptr, s1))"
| "xmeans_children ikm tree data ids N K height k children s =
     (if k < K \<and> height > 1
      then (let (partition, partition_N) = copy_subset_of ikm data ids N (hikm_M tree) k;
                partition_K = min K partition_N;
                (child, s1) = xmeans ikm tree partition partition_N partition_K (height - 1) s
            in xmeans_children ikm tree data ids N K height (k + 1)
                 (children[nat k := Ptr child]) s1)
      else (children, s))"
  by pat_completeness auto
termination
  by (relation "measures
        [\<lambda>x. case x of Inl (ikm, tree, data, N, K, height, s) \<Rightarrow> 2 * nat height + 1
                      | Inr (ikm, tree, data, ids, N, K, height, k, children, s) \<Rightarrow> 2 * nat height,
         \<lambda>x. case x of Inl (ikm, tree, data, N, K, height, s) \<Rightarrow> 0
                      | Inr (ikm, tree, data, ids, N, K, height, k, children, s) \<Rightarrow> nat (K - k)]")
     auto

declare xmeans.simps [simp del] xmeans_children.simps [simp del]

text \<open>The labels that line 105 stores in \<open>ids\<close>.\<close>

definition xmeans_ids ::
  "('d, 'f, 's) ikm \<Rightarrow> 'f VlHIKMTree \<Rightarrow> 'd list \<Rightarrow> int \<Rightarrow> int \<Rightarrow> 's \<Rightarrow> vl_uint list" where
  "xmeans_ids ikm tree data N K s =
     vl_ikm_push_all ikm (fst (xmeans_filter ikm tree data N K s)) data (hikm_M tree) N"

subsection \<open>vl_hikm_new and vl_hikm_train (lines 168-180 and 225-229)\<close>

definition vl_hikm_new :: "int \<Rightarrow> 'f VlHIKMTree" where
  "vl_hikm_new method =
     \<lparr>hikm_M = 0, hikm_K = 0, hikm_max_niters = 200, hikm_method = method,
      hikm_verb = 0, hikm_depth = 0, hikm_root = Null\<rparr>"

definition vl_hikm_train ::
  "('d, 'f, 's) ikm \<Rightarrow> 'f VlHIKMTree \<Rightarrow> 'd list \<Rightarrow> int \<Rightarrow> 's \<Rightarrow> 'f VlHIKMTree \<times> 's" where
  "vl_hikm_train ikm f data N s =
     (let (node, s1) = xmeans ikm f data N (min (hikm_K f) N) (hikm_depth f) s
      in (f\<lparr>hikm_root := Ptr node\<rparr>, s1))"

subsection \<open>xdelete, vl_hikm_delete and vl_hikm_init (lines 146-160, 187-194, 207-216)\<close>

text \<open>
  Freeing is an effect on the heap: the model returns the list of objects released, in the
  order of the calls. A call that reads outside an array or through an indeterminate or
  null pointer has no defined behaviour in C; its model returns \<open>None\<close>.
\<close>

datatype 'f released =
    Free_children "'f node_ptr list"
  | Ikm_delete 'f
  | Free_node "'f VlHIKMNode"
  | Free_tree

text \<open>
  \<open>xdelete_children\<close> is the loop of lines 152-153 from \<open>k\<close> on; it evaluates
  \<open>vl_ikm_get_K (node->filter)\<close> before every round.
\<close>

function xdelete :: "('d, 'f, 's) ikm \<Rightarrow> 'f node_ptr \<Rightarrow> 'f released list option"
  and xdelete_children ::
    "('d, 'f, 's) ikm \<Rightarrow> 'f option \<Rightarrow> 'f node_ptr list \<Rightarrow> int \<Rightarrow> 'f released list option"
where
  "xdelete ikm Null = Some []"
| "xdelete ikm Indeterminate = None"
| "xdelete ikm (Ptr node) =
     (case (case node_children node of
              None \<Rightarrow> Some []
            | Some children \<Rightarrow>
                (case xdelete_children ikm (node_filter node) children 0 of
                   None \<Rightarrow> None
                 | Some below \<Rightarrow> Some (below @ [Free_children children]))) of
        None \<Rightarrow> None
      | Some rel \<Rightarrow>
          Some (rel @ (case node_filter node of None \<Rightarrow> [] | Some flt \<Rightarrow> [Ikm_delete flt])
                    @ [Free_node node]))"
| "xdelete_children ikm filter_ptr children k =
     (case filter_ptr of
        None \<Rightarrow> None
      | Some flt \<Rightarrow>
          if k < vl_ikm_get_K ikm flt
          then (if 0 \<le> k \<and> nat k < length children
                then (case xdelete ikm (children ! nat k) of
                        None \<Rightarrow> None
                      | Some rel \<Rightarrow>
                          (case xdelete_children ikm filter_ptr children (k + 1) of
                             None \<Rightarrow> None
                           | Some rest \<Rightarrow> Some (rel @ rest)))
                else None)
          else Some [])"
  by pat_completeness auto
termination
proof (relation "measures
        [\<lambda>x. case x of Inl (ikm, p) \<Rightarrow> size p
                      | Inr (ikm, filter_ptr, children, k) \<Rightarrow> size_list size children,
         \<lambda>x. case x of Inl (ikm, p) \<Rightarrow> 0
                      | Inr (ikm, filter_ptr, children, k) \<Rightarrow>
                          Suc (nat ((case filter_ptr of None \<Rightarrow> 0 | Some flt \<Rightarrow> vl_ikm_get_K ikm flt) - k))]",
       goal_cases)
  case 1
  show ?case by simp
next
  case (2 ikm node children)
  then show ?case by (cases node) simp
next
  case (3 ikm filter_ptr children k flt)
  then have "children ! nat k \<in> set children"
    by simp
  then have "size (children ! nat k) \<le> size_list size children"
    by (rule size_list_estimation') simp
  then show ?case by auto
next
  case (4 ikm filter_ptr children k flt rel)
  then show ?case by auto
qed

declare xdelete_children.simps [simp del]

text \<open>\<open>vl_hikm_delete (f)\<close>; \<open>None\<close> as argument is the null tree pointer.\<close>

definition vl_hikm_delete ::
  "('d, 'f, 's) ikm \<Rightarrow> 'f VlHIKMTree option \<Rightarrow> 'f released list option" where
  "vl_hikm_delete ikm f_ptr =
     (case f_ptr of
        None \<Rightarrow> Some []
      | Some f \<Rightarrow>
          (case xdelete ikm (hikm_root f) of
             None \<Rightarrow> None
           | Some rel \<Rightarrow> Some (rel @ [Free_tree])))"

text \<open>\<open>vl_hikm_init\<close> returns what it released and the tree record after the call.\<close>

definition vl_hikm_init ::
  "('d, 'f, 's) ikm \<Rightarrow> 'f VlHIKMTree \<Rightarrow> int \<Rightarrow> int \<Rightarrow> int
     \<Rightarrow> ('f released list \<times> 'f VlHIKMTree) option" where
  "vl_hikm_init ikm f M K depth =
     (case xdelete ikm (hikm_root f) of
        None \<Rightarrow> None
      | Some rel \<Rightarrow>
          Some (rel, f\<lparr>hikm_root := Null, hikm_M := M, hikm_K := K, hikm_depth := depth\<rparr>))"

subsection \<open>vl_hikm_push (lines 240-269)\<close>

text \<open>
  \<open>push_walk\<close> is the \<open>while (node)\<close> loop of lines 251-268 for the datum \<open>i\<close>, entered
  with the current \<open>node\<close>, the array \<open>asgn\<close> and the level \<open>d\<close>; \<open>push_data\<close> is the
  \<open>for\<close> loop of line 248 from \<open>i\<close> on. A write outside \<open>asgn\<close> and a read outside the
  children array have no defined behaviour in C and give \<open>None\<close>.
\<close>

function push_walk ::
  "('d, 'f, 's) ikm \<Rightarrow> 'f node_ptr \<Rightarrow> vl_uint list \<Rightarrow> 'd list \<Rightarrow> int \<Rightarrow> int \<Rightarrow> int \<Rightarrow> int
     \<Rightarrow> vl_uint list option"
where
  "push_walk ikm Null asgn data i M depth d = Some asgn"
| "push_walk ikm Indeterminate asgn data i M depth d = None"
| "push_walk ikm (Ptr node) asgn data i M depth d =
     (case node_filter node of
        None \<Rightarrow> None
      | Some flt \<Rightarrow>
          (let best = vl_ikm_push ikm flt (point M data (nat i))
           in if 0 \<le> i * depth + d \<and> nat (i * depth + d) < length asgn
              then (let asgn1 = asgn[nat (i * depth + d) := best]
                    in case node_children node of
                         None \<Rightarrow> Some asgn1
                       | Some children \<Rightarrow>
                           if unat best < length children
                           then push_walk ikm (children ! unat best) asgn1 data i M depth (d + 1)
                           else None)
              else None))"
  by pat_completeness auto
termination
proof (relation "measure (\<lambda>(ikm, p, asgn, data, i, M, depth, d). size p)", goal_cases)
  case 1
  show ?case by simp
next
  case (2 ikm node asgn data i M depth d flt best asgn1 children)
  then have "children ! unat best \<in> set children"
    by simp
  then have "size (children ! unat best) \<le> size_list size children"
    by (rule size_list_estimation') simp
  with 2 show ?case by (cases node) simp
qed

function push_data ::
  "('d, 'f, 's) ikm \<Rightarrow> 'f VlHIKMTree \<Rightarrow> vl_uint list \<Rightarrow> 'd list \<Rightarrow> int \<Rightarrow> int
     \<Rightarrow> vl_uint list option"
where
  "push_data ikm f asgn data N i =
     (if i < N
      then (case push_walk ikm (hikm_root f) asgn data i
                   (vl_hikm_get_ndims f) (vl_hikm_get_depth f) 0 of
              None \<Rightarrow> None
            | Some asgn1 \<Rightarrow> push_data ikm f asgn1 data N (i + 1))
      else Some asgn)"
  by pat_completeness auto
termination
  by (relation "measure (\<lambda>(ikm, f, asgn, data, N, i). nat (N - i))") auto

declare push_data.simps [simp del]

definition vl_hikm_push ::
  "('d, 'f, 's) ikm \<Rightarrow> 'f VlHIKMTree \<Rightarrow> vl_uint list \<Rightarrow> 'd list \<Rightarrow> int \<Rightarrow> vl_uint list option"
where
  "vl_hikm_push ikm f asgn data N = push_data ikm f asgn data N 0"

subsection \<open>The shape of a tree\<close>

text \<open>
  A leaf is a node whose children pointer is null (the test of line 266).
  \<open>branches node\<close> lists every path of nodes from \<open>node\<close> downwards that cannot be
  continued: it ends in a leaf or in a node whose children array has no cell.
\<close>

fun branches :: "'f VlHIKMNode \<Rightarrow> 'f VlHIKMNode list list"
  and branches_ptr :: "'f node_ptr \<Rightarrow> 'f VlHIKMNode list list"
where
  "branches (VlHIKMNode filter_ptr None) = [[VlHIKMNode filter_ptr None]]"
| "branches (VlHIKMNode filter_ptr (Some [])) = [[VlHIKMNode filter_ptr (Some [])]]"
| "branches (VlHIKMNode filter_ptr (Some (c # cs))) =
     map ((#) (VlHIKMNode filter_ptr (Some (c # cs)))) (concat (map branches_ptr (c # cs)))"
| "branches_ptr (Ptr node) = branches node"
| "branches_ptr Null = []"
| "branches_ptr Indeterminate = []"

text \<open>
  \<open>has_height h node\<close>: the nodes on level \<open>h\<close> below \<open>node\<close> (itself level 1) are leaves,
  the nodes above are not, and every cell of every children array points to a node.
\<close>

fun has_height :: "nat \<Rightarrow> 'f VlHIKMNode \<Rightarrow> bool"
  and has_height_ptr :: "nat \<Rightarrow> 'f node_ptr \<Rightarrow> bool"
where
  "has_height h (VlHIKMNode filter_ptr None) = (h = 1)"
| "has_height h (VlHIKMNode filter_ptr (Some children)) =
     (1 < h \<and> list_all (has_height_ptr (h - 1)) children)"
| "has_height_ptr h (Ptr node) = has_height h node"
| "has_height_ptr h Null = False"
| "has_height_ptr h Indeterminate = False"

text \<open>
  \<open>branching_ok ikm node\<close>: below \<open>node\<close>, every children array has as many cells as the
  filter of its node has centers, and every cell points to a node.
\<close>

fun branching_ok :: "('d, 'f, 's) ikm \<Rightarrow> 'f VlHIKMNode \<Rightarrow> bool"
  and branching_ok_ptr :: "('d, 'f, 's) ikm \<Rightarrow> 'f node_ptr \<Rightarrow> bool"
where
  "branching_ok ikm (VlHIKMNode filter_ptr None) = True"
| "branching_ok ikm (VlHIKMNode filter_ptr (Some children)) =
     ((case filter_ptr of
         None \<Rightarrow> False
       | Some flt \<Rightarrow> int (length children) = vl_ikm_get_K ikm flt)
      \<and> list_all (branching_ok_ptr ikm) children)"
| "branching_ok_ptr ikm (Ptr node) = branching_ok ikm node"
| "branching_ok_ptr ikm Null = False"
| "branching_ok_ptr ikm Indeterminate = False"

text \<open>The nodes of a tree, parents first.\<close>

fun nodes_of :: "'f VlHIKMNode \<Rightarrow> 'f VlHIKMNode list"
  and nodes_of_ptr :: "'f node_ptr \<Rightarrow> 'f VlHIKMNode list"
where
  "nodes_of (VlHIKMNode filter_ptr None) = [VlHIKMNode filter_ptr None]"
| "nodes_of (VlHIKMNode filter_ptr (Some children)) =
     VlHIKMNode filter_ptr (Some children) # concat (map nodes_of_ptr children)"
| "nodes_of_ptr (Ptr node) = nodes_of node"
| "nodes_of_ptr Null = []"
| "nodes_of_ptr Indeterminate = []"

subsection \<open>The builder as the specification words it\<close>

text \<open>
  The partitioner of the specification: the points whose label is \<open>L\<close>, in their order,
  and their number.
\<close>

definition partitioner :: "'d list \<Rightarrow> vl_uint list \<Rightarrow> int \<Rightarrow> int \<Rightarrow> int \<Rightarrow> 'd list \<times> int" where
  "partitioner data labels N M L =
     (concat (map (point M data) (labelled labels N (word_of_int L))),
      int (length (labelled labels N (word_of_int L))))"

text \<open>
  \<open>build\<close> follows the four steps of the specification: train a model on the points with
  \<open>K\<close> centers, label the points, stop at a leaf when one level remains, and otherwise
  build one child per label \<open>0, \<dots>, K - 1\<close> in ascending order, on the subset that the
  partitioner \<open>part\<close> extracts for the label, with \<open>min K N\<^sub>k\<close> centers. The argument
  \<open>below\<close> counts the levels under the node, the specification's \<open>height - 1\<close>.
\<close>

fun build ::
    "('d list \<Rightarrow> vl_uint list \<Rightarrow> int \<Rightarrow> int \<Rightarrow> int \<Rightarrow> 'd list \<times> int) \<Rightarrow> ('d, 'f, 's) ikm
       \<Rightarrow> 'f VlHIKMTree \<Rightarrow> 'd list \<Rightarrow> int \<Rightarrow> int \<Rightarrow> nat \<Rightarrow> 's \<Rightarrow> 'f VlHIKMNode \<times> 's"
  and build_children ::
    "('d list \<Rightarrow> vl_uint list \<Rightarrow> int \<Rightarrow> int \<Rightarrow> int \<Rightarrow> 'd list \<times> int) \<Rightarrow> ('d, 'f, 's) ikm
       \<Rightarrow> 'f VlHIKMTree \<Rightarrow> 'd list \<Rightarrow> vl_uint list \<Rightarrow> int \<Rightarrow> int \<Rightarrow> nat \<Rightarrow> int list \<Rightarrow> 's
       \<Rightarrow> 'f node_ptr list \<times> 's"
where
  "build part ikm tree data N K 0 s =
     (let (model, s1) = xmeans_filter ikm tree data N K s
      in (VlHIKMNode (Some model) None, s1))"
| "build part ikm tree data N K (Suc below) s =
     (let (model, s1) = xmeans_filter ikm tree data N K s;
          labels = vl_ikm_push_all ikm model data (hikm_M tree) N;
          (children, s2) = build_children part ikm tree data labels N K below [0..K - 1] s1
      in (VlHIKMNode (Some model) (Some children), s2))"
| "build_children part ikm tree data labels N K below [] s = ([], s)"
| "build_children part ikm tree data labels N K below (k # ks) s =
     (let (subset, N_k) = part data labels N (hikm_M tree) k;
          (child, s1) = build part ikm tree subset N_k (min K N_k) below s;
          (others, s2) = build_children part ikm tree data labels N K below ks s1
      in (Ptr child # others, s2))"

subsection \<open>The order of release\<close>

text \<open>
  \<open>released_by node\<close>: the children of the node from the first to the last, then its
  children array, then its filter, then the node.
\<close>

fun released_by :: "'f VlHIKMNode \<Rightarrow> 'f released list"
  and released_by_ptr :: "'f node_ptr \<Rightarrow> 'f released list"
where
  "released_by (VlHIKMNode filter_ptr children_ptr) =
     (case children_ptr of
        None \<Rightarrow> []
      | Some children \<Rightarrow> concat (map released_by_ptr children) @ [Free_children children])
     @ (case filter_ptr of None \<Rightarrow> [] | Some flt \<Rightarrow> [Ikm_delete flt])
     @ [Free_node (VlHIKMNode filter_ptr children_ptr)]"
| "released_by_ptr (Ptr node) = released_by node"
| "released_by_ptr Null = []"
| "released_by_ptr Indeterminate = []"

text \<open>
  The order that the specification gives for Destroy: the children, then the clustering
  model, then the children array, then the node.
\<close>

fun destroy_order :: "'f VlHIKMNode \<Rightarrow> 'f released list"
  and destroy_order_ptr :: "'f node_ptr \<Rightarrow> 'f released list"
where
  "destroy_order (VlHIKMNode filter_ptr children_ptr) =
     (case children_ptr of
        None \<Rightarrow> []
      | Some children \<Rightarrow> concat (map destroy_order_ptr children))
     @ (case filter_ptr of None \<Rightarrow> [] | Some flt \<Rightarrow> [Ikm_delete flt])
     @ (case children_ptr of None \<Rightarrow> [] | Some children \<Rightarrow> [Free_children children])
     @ [Free_node (VlHIKMNode filter_ptr children_ptr)]"
| "destroy_order_ptr (Ptr node) = destroy_order node"
| "destroy_order_ptr Null = []"
| "destroy_order_ptr Indeterminate = []"

subsection \<open>The labels of a walk\<close>

text \<open>
  \<open>path_labels ikm node x\<close>: the labels met by the point \<open>x\<close> on the way down from
  \<open>node\<close>: the label that the filter of the current node gives to \<open>x\<close>, then the labels
  from the child with that index on, until a leaf; \<open>None\<close> where the way leaves the tree (no
  filter, no child with that index, an indeterminate pointer).
\<close>

function path_labels :: "('d, 'f, 's) ikm \<Rightarrow> 'f node_ptr \<Rightarrow> 'd list \<Rightarrow> vl_uint list option" where
  "path_labels ikm Null x = Some []"
| "path_labels ikm Indeterminate x = None"
| "path_labels ikm (Ptr node) x =
     (case node_filter node of
        None \<Rightarrow> None
      | Some flt \<Rightarrow>
          (case node_children node of
             None \<Rightarrow> Some [vl_ikm_push ikm flt x]
           | Some children \<Rightarrow>
               if unat (vl_ikm_push ikm flt x) < length children
               then (case path_labels ikm (children ! unat (vl_ikm_push ikm flt x)) x of
                       None \<Rightarrow> None
                     | Some below \<Rightarrow> Some (vl_ikm_push ikm flt x # below))
               else None))"
  by pat_completeness auto
termination
proof (relation "measure (\<lambda>(ikm, p, x). size p)", goal_cases)
  case 1
  show ?case by simp
next
  case (2 ikm node x flt children)
  then have "children ! unat (vl_ikm_push ikm flt x) \<in> set children"
    by simp
  then have "size (children ! unat (vl_ikm_push ikm flt x)) \<le> size_list size children"
    by (rule size_list_estimation') simp
  with 2 show ?case by (cases node) simp
qed

subsection \<open>What the model asks of the filter\<close>

text \<open>
  Modelled from the spec: \<open>vl_ikm_get_K\<close> returns the number of centers that
  \<open>vl_ikm_init_rand_data\<close> was asked for, and training keeps it.
\<close>

definition ikm_keeps_K :: "('d, 'f, 's) ikm \<Rightarrow> bool" where
  "ikm_keeps_K ikm \<longleftrightarrow>
     (\<forall>flt data M N K s. vl_ikm_get_K ikm (fst (vl_ikm_init_rand_data ikm flt data M N K s)) = K)
     \<and> (\<forall>flt data N s. vl_ikm_get_K ikm (fst (vl_ikm_train ikm flt data N s)) = vl_ikm_get_K ikm flt)"

subsection \<open>A filter to run the model on\<close>

text \<open>
  A small instance of the filter for concrete runs: a filter is the number of centers
  with the centers, seeded with the first \<open>K\<close> points; a point gets the index of the nearest
  center, the first of them on a tie; the state counts the seedings.
\<close>

definition dist2 :: "int list \<Rightarrow> int list \<Rightarrow> int" where
  "dist2 c x = sum_list (map (\<lambda>(a, b). (a - b) * (a - b)) (zip c x))"

fun nearest :: "int list list \<Rightarrow> int list \<Rightarrow> nat" where
  "nearest [] x = 0"
| "nearest [c] x = 0"
| "nearest (c # cs) x =
     (if dist2 c x \<le> dist2 (cs ! nearest cs x) x then 0 else Suc (nearest cs x))"

definition first_points_ikm :: "(int, int \<times> int list list, nat) ikm" where
  "first_points_ikm =
     \<lparr>vl_ikm_new = (\<lambda>method. (0, [])),
      vl_ikm_set_max_niters = (\<lambda>flt n. flt),
      vl_ikm_set_verbosity = (\<lambda>flt v. flt),
      vl_ikm_init_rand_data = (\<lambda>flt data M N K s. ((K, map (point M data) [0..<nat K]), Suc s)),
      vl_ikm_train = (\<lambda>flt data N s. (flt, s)),
      vl_ikm_push = (\<lambda>flt x. word_of_nat (nearest (snd flt) x)),
      vl_ikm_get_K = fst,
      fresh_data = 0\<rparr>"

text \<open>
  A second instance, with a training step: one round of refinement moves every center to
  the mean of the points it is nearest to (for data that is not negative), and a center
  that no point is nearest to is computed from an empty sum, the origin.
\<close>

definition mean_point :: "nat \<Rightarrow> int list list \<Rightarrow> int list" where
  "mean_point M pts =
     map (\<lambda>j. if pts = [] then 0 else sum_list (map (\<lambda>p. p ! j) pts) div int (length pts))
       [0..<M]"

definition refine_centers :: "int list list \<Rightarrow> int list list \<Rightarrow> int list list" where
  "refine_centers centers pts =
     (case centers of
        [] \<Rightarrow> []
      | c # cs \<Rightarrow>
          map (\<lambda>k. mean_point (length c) (filter (\<lambda>p. nearest centers p = k) pts))
            [0..<length centers])"

definition mean_ikm :: "(int, int \<times> int list list, nat) ikm" where
  "mean_ikm =
     \<lparr>vl_ikm_new = (\<lambda>method. (0, [])),
      vl_ikm_set_max_niters = (\<lambda>flt n. flt),
      vl_ikm_set_verbosity = (\<lambda>flt v. flt),
      vl_ikm_init_rand_data = (\<lambda>flt data M N K s. ((K, map (point M data) [0..<nat K]), Suc s)),
      vl_ikm_train = (\<lambda>flt data N s.
         ((fst flt,
           refine_centers (snd flt)
             (case snd flt of [] \<Rightarrow> [] | c # cs \<Rightarrow> points_of (int (length c)) data N)), s)),
      vl_ikm_push = (\<lambda>flt x. word_of_nat (nearest (snd flt) x)),
      vl_ikm_get_K = fst,
      fresh_data = 0\<rparr>"

text \<open>
  The tree record after \<open>vl_hikm_new (0)\<close> and \<open>vl_hikm_init (f, 1, 2, depth)\<close>, and the
  trees trained from it on the points 0, 1, 9, 10 with depth 2 (first instance of the filter)
  and on the point 5 twice with depth 3 (second instance).
\<close>

definition configured :: "int \<Rightarrow> (int \<times> int list list) VlHIKMTree" where
  "configured depth =
     \<lparr>hikm_M = 1, hikm_K = 2, hikm_max_niters = 200, hikm_method = 0,
      hikm_verb = 0, hikm_depth = depth, hikm_root = Null\<rparr>"

definition trained_0_1_9_10 :: "(int \<times> int list list) VlHIKMTree" where
  "trained_0_1_9_10 = fst (vl_hikm_train first_points_ikm (configured 2) [0, 1, 9, 10] 4 0)"

definition mean_trained_5_5 :: "(int \<times> int list list) VlHIKMTree" where
  "mean_trained_5_5 = fst (vl_hikm_train mean_ikm (configured 3) [5, 5] 2 0)"

section \<open>Lemmas\<close>

subsection \<open>The two loops of the partitioner\<close>

lemma upt_conv_Cons_int: "0 \<le> i \<Longrightarrow> i < N \<Longrightarrow> [nat i..<nat N] = nat i # [nat (i + 1)..<nat N]"
proof -
  assume a: "0 \<le> i" "i < N"
  have "nat (i + 1) = Suc (nat i)" using a by simp
  moreover have "nat i < nat N" using a by simp
  ultimately show ?thesis by (simp add: upt_conv_Cons)
qed

lemma copy_subset_count_eq:
  "0 \<le> i \<Longrightarrow> copy_subset_count ids N label i cnt =
     cnt + int (length (filter (\<lambda>j. ids ! j = label) [nat i..<nat N]))"
proof (induction ids N label i cnt rule: copy_subset_count.induct)
  case (1 ids N label i cnt)
  show ?case
  proof (cases "i < N")
    case True
    with 1 show ?thesis
      by (subst copy_subset_count.simps) (simp add: upt_conv_Cons_int)
  next
    case False
    with 1 show ?thesis by (subst copy_subset_count.simps) simp
  qed
qed

lemma point_in_range:
  "0 \<le> M \<Longrightarrow> (i + 1) * nat M \<le> length data \<Longrightarrow> length (point M data i) = nat M"
  by (simp add: point_def)

lemma memcpy_point:
  assumes "0 \<le> i" "0 \<le> cnt" "0 \<le> M"
  shows "memcpy new_data (cnt * M) data (i * M) M =
           take (nat cnt * nat M) new_data @ point M data (nat i)
             @ drop (nat cnt * nat M + nat M) new_data"
  using assms by (simp add: memcpy_def point_def nat_mult_distrib)

lemma take_written:
  assumes "length p = m" "(c + 1) * m \<le> length buf"
  shows "take ((c + 1) * m) (take (c * m) buf @ p @ drop (c * m + m) buf) = take (c * m) buf @ p"
proof -
  have "c * m \<le> length buf" using assms(2) by simp
  then have "length (take (c * m) buf @ p) = (c + 1) * m" using assms(1) by simp
  then show ?thesis by (metis append.assoc append_eq_conv_conj)
qed

lemma length_written:
  assumes "length p = m" "(c + 1) * m \<le> length buf"
  shows "length (take (c * m) buf @ p @ drop (c * m + m) buf) = length buf"
  using assms by simp

lemma copy_subset_copy_eq:
  "0 \<le> i \<Longrightarrow> 0 \<le> cnt \<Longrightarrow> 0 \<le> M \<Longrightarrow> nat N * nat M \<le> length data \<Longrightarrow>
   length new_data = (nat cnt + length (filter (\<lambda>j. ids ! j = label) [nat i..<nat N])) * nat M \<Longrightarrow>
   copy_subset_copy data ids N M label i cnt new_data =
     (take (nat cnt * nat M) new_data @
        concat (map (point M data) (filter (\<lambda>j. ids ! j = label) [nat i..<nat N])),
      cnt + int (length (filter (\<lambda>j. ids ! j = label) [nat i..<nat N])))"
proof (induction data ids N M label i cnt new_data rule: copy_subset_copy.induct)
  case (1 data ids N M label i cnt new_data)
  note i0 = \<open>0 \<le> i\<close> and c0 = \<open>0 \<le> cnt\<close> and M0 = \<open>0 \<le> M\<close>
    and dlen = \<open>nat N * nat M \<le> length data\<close>
  show ?case
  proof (cases "i < N")
    case False
    then have "[nat i..<nat N] = []" using i0 by simp
    with False 1(7) show ?thesis by (subst copy_subset_copy.simps) simp
  next
    case True
    note lt = this
    have upt: "[nat i..<nat N] = nat i # [nat (i + 1)..<nat N]"
      using i0 lt by (rule upt_conv_Cons_int)
    let ?rest = "filter (\<lambda>j. ids ! j = label) [nat (i + 1)..<nat N]"
    show ?thesis
    proof (cases "ids ! nat i = label")
      case False
      have len: "length new_data = (nat cnt + length ?rest) * nat M"
        using 1(7) False by (simp add: upt)
      have "copy_subset_copy data ids N M label (i + 1) cnt new_data =
         (take (nat cnt * nat M) new_data @ concat (map (point M data) ?rest),
          cnt + int (length ?rest))"
        using i0 by (intro 1(2)[OF lt False _ c0 M0 dlen len]) simp
      then show ?thesis
        using lt False by (subst copy_subset_copy.simps) (simp add: upt)
    next
      case True
      let ?p = "point M data (nat i)"
      let ?buf = "take (nat cnt * nat M) new_data @ ?p @ drop (nat cnt * nat M + nat M) new_data"
      have len: "length new_data = (nat cnt + 1 + length ?rest) * nat M"
        using 1(7) True by (simp add: upt)
      have fits: "(nat cnt + 1) * nat M \<le> length new_data"
        unfolding len by (rule mult_le_mono1) simp
      have inr: "(nat i + 1) * nat M \<le> length data"
      proof -
        have "nat i + 1 \<le> nat N" using lt i0 by simp
        then have "(nat i + 1) * nat M \<le> nat N * nat M" by (rule mult_le_mono1)
        with dlen show ?thesis by simp
      qed
      have pl: "length ?p = nat M"
        using point_in_range[OF M0 inr] .
      have c1: "nat (cnt + 1) = nat cnt + 1" using c0 by simp
      have mc: "memcpy new_data (cnt * M) data (i * M) M = ?buf"
        using i0 c0 M0 by (rule memcpy_point)
      have blen: "length ?buf = (nat (cnt + 1) + length ?rest) * nat M"
        unfolding length_written[OF pl fits] c1 by (rule len)
      have tk: "take (nat (cnt + 1) * nat M) ?buf = take (nat cnt * nat M) new_data @ ?p"
        unfolding c1 using pl fits by (rule take_written)
      have "copy_subset_copy data ids N M label (i + 1) (cnt + 1) ?buf =
         (take (nat (cnt + 1) * nat M) ?buf @ concat (map (point M data) ?rest),
          cnt + 1 + int (length ?rest))"
        using i0 c0 by (intro 1(1)[OF lt True _ _ M0 dlen, unfolded mc, OF _ _ blen]) simp_all
      then have "copy_subset_copy data ids N M label (i + 1) (cnt + 1) ?buf =
         ((take (nat cnt * nat M) new_data @ ?p) @ concat (map (point M data) ?rest),
          cnt + 1 + int (length ?rest))"
        unfolding tk .
      then show ?thesis
        using lt True by (subst copy_subset_copy.simps) (simp add: upt mc del: append_assoc)
    qed
  qed
qed

lemma vl_hikm_copy_subset_eq:
  assumes "0 \<le> M" "nat N * nat M \<le> length data"
  shows "vl_hikm_copy_subset fresh data ids N M label =
           (concat (map (point M data) (labelled ids N label)), int (length (labelled ids N label)))"
proof -
  let ?sel = "filter (\<lambda>j. ids ! j = label) [nat 0..<nat N]"
  have cnt: "copy_subset_count ids N label 0 0 = int (length ?sel)"
    using copy_subset_count_eq[of 0 ids N label 0] by simp
  let ?block = "replicate (nat (M * int (length ?sel))) fresh"
  have "0 \<le> M * int (length ?sel)"
    using assms(1) by (intro mult_nonneg_nonneg) simp_all
  then have block: "vl_malloc fresh (M * int (length ?sel)) = Some ?block"
    by (simp add: vl_malloc_def not_less)
  have len: "length ?block = (nat 0 + length ?sel) * nat M"
    using assms(1) by (simp add: nat_mult_distrib mult.commute)
  have "copy_subset_copy data ids N M label 0 0 ?block =
          (take (nat 0 * nat M) ?block @ concat (map (point M data) ?sel), 0 + int (length ?sel))"
    by (rule copy_subset_copy_eq[OF _ _ assms(1) assms(2) len]) simp_all
  then show ?thesis
    using block by (simp add: vl_hikm_copy_subset_def cnt labelled_def Let_def)
qed

lemma point_concat:
  assumes "\<forall>p \<in> set ps. length p = m" "j < length ps"
  shows "take m (drop (j * m) (concat ps)) = ps ! j"
  using assms
proof (induction ps arbitrary: j)
  case Nil
  then show ?case by simp
next
  case (Cons p ps)
  show ?case
  proof (cases j)
    case 0
    with Cons.prems show ?thesis by simp
  next
    case (Suc j')
    with Cons show ?thesis by simp
  qed
qed

lemma points_of_concat:
  assumes "0 \<le> M" "\<forall>p \<in> set ps. length p = nat M"
  shows "points_of M (concat ps) (int (length ps)) = ps"
proof (rule nth_equalityI)
  show "length (points_of M (concat ps) (int (length ps))) = length ps"
    by (simp add: points_of_def)
next
  fix j assume "j < length (points_of M (concat ps) (int (length ps)))"
  then have j: "j < length ps" by (simp add: points_of_def)
  then show "points_of M (concat ps) (int (length ps)) ! j = ps ! j"
    using point_concat[OF assms(2) j] by (simp add: points_of_def point_def)
qed

lemma label_unique:
  assumes "0 \<le> uint w" "uint (w :: vl_uint) < K" "K \<le> 2 ^ 32" "0 \<le> k" "k < K"
  shows "w = word_of_int k \<longleftrightarrow> k = uint w"
proof
  assume "w = word_of_int k"
  then have "uint w = k mod 2 ^ 32" by (simp add: uint_word_of_int)
  with assms show "k = uint w" by simp
next
  assume "k = uint w"
  then show "w = word_of_int k" by simp
qed

lemma sum_label_delta:
  assumes "uint (w :: vl_uint) < K" "K \<le> 2 ^ 32"
  shows "(\<Sum>k \<in> {0..<K}. if w = word_of_int k then g k else (0 :: 'a :: comm_monoid_add)) = g (uint w)"
proof -
  have "(\<Sum>k \<in> {0..<K}. if w = word_of_int k then g k else 0) =
        (\<Sum>k \<in> {0..<K}. if k = uint w then g k else 0)"
    by (rule sum.cong) (use assms label_unique[of w K] in auto)
  also have "\<dots> = g (uint w)"
    using assms by (simp add: sum.delta)
  finally show ?thesis .
qed

lemma partition_counts:
  assumes "\<forall>i \<in> set xs. uint (ids ! i :: vl_uint) < K" "K \<le> 2 ^ 32"
  shows "(\<Sum>k \<in> {0..<K}. int (length (filter (\<lambda>i. ids ! i = word_of_int k) xs))) = int (length xs)"
  using assms(1)
proof (induction xs)
  case Nil
  then show ?case by simp
next
  case (Cons x xs)
  have "(\<Sum>k \<in> {0..<K}. int (length (filter (\<lambda>i. ids ! i = word_of_int k) (x # xs)))) =
        (\<Sum>k \<in> {0..<K}. (if ids ! x = word_of_int k then 1 else 0)
             + int (length (filter (\<lambda>i. ids ! i = word_of_int k) xs)))"
    by (rule sum.cong) auto
  also have "\<dots> = (\<Sum>k \<in> {0..<K}. if ids ! x = word_of_int k then 1 else 0)
             + (\<Sum>k \<in> {0..<K}. int (length (filter (\<lambda>i. ids ! i = word_of_int k) xs)))"
    by (rule sum.distrib)
  also have "\<dots> = 1 + int (length xs)"
    using Cons sum_label_delta[of "ids ! x" K "\<lambda>_. 1::int", OF _ assms(2)] by simp
  finally show ?case by simp
qed

lemma partition_mset:
  assumes "\<forall>i \<in> set xs. uint (ids ! i :: vl_uint) < K" "K \<le> 2 ^ 32"
  shows "(\<Sum>k \<in> {0..<K}. mset (map f (filter (\<lambda>i. ids ! i = word_of_int k) xs))) = mset (map f xs)"
  using assms(1)
proof (induction xs)
  case Nil
  then show ?case by simp
next
  case (Cons x xs)
  have "(\<Sum>k \<in> {0..<K}. mset (map f (filter (\<lambda>i. ids ! i = word_of_int k) (x # xs)))) =
        (\<Sum>k \<in> {0..<K}. (if ids ! x = word_of_int k then {#f x#} else {#})
             + mset (map f (filter (\<lambda>i. ids ! i = word_of_int k) xs)))"
    by (rule sum.cong) auto
  also have "\<dots> = (\<Sum>k \<in> {0..<K}. if ids ! x = word_of_int k then {#f x#} else {#})
             + (\<Sum>k \<in> {0..<K}. mset (map f (filter (\<lambda>i. ids ! i = word_of_int k) xs)))"
    by (rule sum.distrib)
  also have "\<dots> = {#f x#} + mset (map f xs)"
    using Cons sum_label_delta[of "ids ! x" K "\<lambda>_. {#f x#}", OF _ assms(2)] by simp
  finally show ?case by simp
qed

lemma copy_subset_copy_count:
  "0 \<le> i \<Longrightarrow> snd (copy_subset_copy data ids N M label i cnt new_data) =
     cnt + int (length (filter (\<lambda>j. ids ! j = label) [nat i..<nat N]))"
proof (induction data ids N M label i cnt new_data rule: copy_subset_copy.induct)
  case (1 data ids N M label i cnt new_data)
  show ?case
  proof (cases "i < N")
    case False
    then have "[nat i..<nat N] = []" using 1(3) by simp
    with False show ?thesis by (subst copy_subset_copy.simps) simp
  next
    case True
    have upt: "[nat i..<nat N] = nat i # [nat (i + 1)..<nat N]"
      using 1(3) True by (rule upt_conv_Cons_int)
    have i1: "0 \<le> i + 1" using 1(3) by simp
    show ?thesis
    proof (cases "ids ! nat i = label")
      case False
      show ?thesis
        using True False 1(2)[OF True False i1]
        by (subst copy_subset_copy.simps) (simp add: upt)
    next
      case eq: True
      show ?thesis
        using True eq 1(1)[OF True eq i1]
        by (subst copy_subset_copy.simps) (simp add: upt)
    qed
  qed
qed

lemma copy_subset_of_count:
  "snd (copy_subset_of ikm data ids N M k) = int (length (labelled ids N (word_of_int k)))"
  using copy_subset_copy_count[of 0 data ids N M "word_of_int k" 0]
  by (simp add: copy_subset_of_def vl_hikm_copy_subset_def labelled_def Let_def)

subsection \<open>The builder\<close>

lemma xmeans_refines:
  "1 \<le> height \<longrightarrow> 0 \<le> K \<longrightarrow>
     xmeans ikm tree data N K height s =
       build (copy_subset_of ikm) ikm tree data N K (nat (height - 1)) (s :: 's)"
  and xmeans_children_refines:
  "1 < height \<longrightarrow> 0 \<le> k \<longrightarrow> 0 \<le> K \<longrightarrow> length children = nat K \<longrightarrow>
     xmeans_children ikm tree data ids N K height k children s =
       (take (nat k) children
          @ fst (build_children (copy_subset_of ikm) ikm tree data ids N K (nat (height - 2)) [k..K - 1] s),
        snd (build_children (copy_subset_of ikm) ikm tree data ids N K (nat (height - 2)) [k..K - 1] s))"
proof (induction ikm tree data N K height s and ikm tree data ids N K height k children s
       rule: xmeans_xmeans_children.induct)
  case (1 ikm tree data N K height s)
  show ?case
  proof (intro impI)
    assume h: "1 \<le> height" and K0: "0 \<le> K"
    obtain flt s1 where fit: "xmeans_filter ikm tree data N K s = (flt, s1)"
      by (cases "xmeans_filter ikm tree data N K s")
    let ?ids = "vl_ikm_push_all ikm flt data (hikm_M tree) N"
    show "xmeans ikm tree data N K height s =
            build (copy_subset_of ikm) ikm tree data N K (nat (height - 1)) s"
    proof (cases "height = 1")
      case True
      then show ?thesis by (simp add: xmeans.simps fit)
    next
      case False
      with h have gt: "1 < height" by simp
      then obtain below where below: "nat (height - 1) = Suc below" "nat (height - 2) = below"
        by (cases "nat (height - 1)") auto
      let ?cells = "replicate (nat K) Indeterminate"
      have cells: "(if height = 1 then None else vl_malloc Indeterminate K) = Some ?cells"
        using gt K0 by (simp add: vl_malloc_def)
      have "xmeans_children ikm tree data ?ids N K height 0 ?cells s1 =
              (take (nat 0) ?cells
                 @ fst (build_children (copy_subset_of ikm) ikm tree data ?ids N K (nat (height - 2)) [0..K - 1] s1),
               snd (build_children (copy_subset_of ikm) ikm tree data ?ids N K (nat (height - 2)) [0..K - 1] s1))"
        using 1[OF refl fit[symmetric] refl refl gt cells] gt K0 by simp
      then show ?thesis
        using gt K0
        by (simp add: xmeans.simps fit below vl_malloc_def case_prod_beta Let_def)
    qed
  qed
next
  case (2 ikm tree data ids N K height k children s)
  let ?part = "copy_subset_of ikm"
  show ?case
  proof (intro impI)
    assume gt: "1 < height" and k0: "0 \<le> k" and K0: "0 \<le> K"
      and len: "length children = nat K"
    show "xmeans_children ikm tree data ids N K height k children s =
       (take (nat k) children
          @ fst (build_children ?part ikm tree data ids N K (nat (height - 2)) [k..K - 1] s),
        snd (build_children ?part ikm tree data ids N K (nat (height - 2)) [k..K - 1] s))"
    proof (cases "k < K")
      case False
      then have "[k..K - 1] = []" by simp
      moreover have "take (nat k) children = children" using False len by simp
      ultimately show ?thesis using False by (simp add: xmeans_children.simps)
    next
      case True
      then have guard: "k < K \<and> 1 < height" using gt by simp
      obtain partition pN where cs: "copy_subset_of ikm data ids N (hikm_M tree) k = (partition, pN)"
        by (cases "copy_subset_of ikm data ids N (hikm_M tree) k")
      obtain child s1 where xm: "xmeans ikm tree partition pN (min K pN) (height - 1) s = (child, s1)"
        by (cases "xmeans ikm tree partition pN (min K pN) (height - 1) s")
      have h2: "nat (height - 1 - 1) = nat (height - 2)" by simp
      have "0 \<le> pN"
        using copy_subset_of_count[of ikm data ids N "hikm_M tree" k] cs by simp
      then have m0: "0 \<le> min K pN" using K0 by simp
      have bc: "build ?part ikm tree partition pN (min K pN) (nat (height - 2)) s = (child, s1)"
        using 2(1)[OF guard refl cs[symmetric] refl] gt xm m0 by (simp add: h2)
      let ?rest = "build_children ?part ikm tree data ids N K (nat (height - 2)) [k + 1..K - 1] s1"
      have step: "xmeans_children ikm tree data ids N K height (k + 1) (children[nat k := Ptr child]) s1 =
          (take (nat (k + 1)) (children[nat k := Ptr child]) @ fst ?rest, snd ?rest)"
        using 2(2)[OF guard refl cs[symmetric] refl xm[symmetric] refl] gt k0 K0 len by simp
      have nk: "nat (k + 1) = Suc (nat k)" using k0 by simp
      have inr: "nat k < length children" using True k0 len by simp
      have tk: "take (nat (k + 1)) (children[nat k := Ptr child]) = take (nat k) children @ [Ptr child]"
        using inr by (simp add: nk take_Suc_conv_app_nth)
      have upto: "[k..K - 1] = k # [k + 1..K - 1]"
        using True by (simp add: upto_rec1)
      have "xmeans_children ikm tree data ids N K height k children s =
              xmeans_children ikm tree data ids N K height (k + 1) (children[nat k := Ptr child]) s1"
        using guard by (subst xmeans_children.simps) (simp add: cs xm)
      then show ?thesis
        by (simp add: step tk upto cs bc split: prod.splits)
    qed
  qed
qed

lemma build_has_height:
  "has_height (Suc below) (fst (build part ikm tree data N K below (s :: 's)))"
  and build_children_has_height:
  "list_all (has_height_ptr (Suc below)) (fst (build_children part ikm tree data labels N K below ks s))"
proof (induction part ikm tree data N K below s and part ikm tree data labels N K below ks s
       rule: build_build_children.induct)
  case (1 part ikm tree data N K s)
  show ?case by (simp add: case_prod_beta Let_def)
next
  case (2 part ikm tree data N K below s)
  obtain flt s1 where fit: "xmeans_filter ikm tree data N K s = (flt, s1)"
    by (cases "xmeans_filter ikm tree data N K s")
  show ?case
    using 2[OF refl fit[symmetric] refl] by (simp add: fit case_prod_beta Let_def)
next
  case (3 part ikm tree data labels N K below s)
  show ?case by simp
next
  case (4 part ikm tree data labels N K below k ks s)
  obtain subset pN where pt: "part data labels N (hikm_M tree) k = (subset, pN)"
    by (cases "part data labels N (hikm_M tree) k")
  obtain child s1 where bd: "build part ikm tree subset pN (min K pN) below s = (child, s1)"
    by (cases "build part ikm tree subset pN (min K pN) below s")
  show ?case
    using 4(1)[OF refl pt[symmetric]] 4(2)[OF refl pt[symmetric] refl bd[symmetric]]
    by (simp add: pt bd case_prod_beta Let_def)
qed

lemma build_children_length:
  "length (fst (build_children part ikm tree data labels N K below ks s)) = length ks"
  by (induction ks arbitrary: s) (simp_all add: case_prod_beta Let_def)

lemma build_children_nth:
  "j < length ks \<Longrightarrow>
   \<exists>s1. fst (build_children part ikm tree data labels N K below ks s) ! j =
     Ptr (fst (build part ikm tree (fst (part data labels N (hikm_M tree) (ks ! j)))
                 (snd (part data labels N (hikm_M tree) (ks ! j)))
                 (min K (snd (part data labels N (hikm_M tree) (ks ! j)))) below s1))"
proof (induction ks arbitrary: j s)
  case Nil
  then show ?case by simp
next
  case (Cons k ks)
  show ?case
  proof (cases j)
    case 0
    then show ?thesis by (auto simp: case_prod_beta Let_def)
  next
    case (Suc j')
    with Cons.prems have "j' < length ks" by simp
    from Cons.IH[OF this] Suc show ?thesis by (simp add: case_prod_beta Let_def)
  qed
qed

lemma xmeans_filter_K:
  "ikm_keeps_K ikm \<Longrightarrow> vl_ikm_get_K ikm (fst (xmeans_filter ikm tree data N K s)) = K"
  by (simp add: ikm_keeps_K_def xmeans_filter_def case_prod_beta Let_def)

lemma build_branching_ok:
  "ikm_keeps_K ikm \<Longrightarrow> (\<forall>d l n m k. 0 \<le> snd (part d l n m k)) \<Longrightarrow> 0 \<le> K \<Longrightarrow>
     branching_ok ikm (fst (build part ikm tree data N K below (s :: 's)))"
  and build_children_branching_ok:
  "ikm_keeps_K ikm \<Longrightarrow> (\<forall>d l n m k. 0 \<le> snd (part d l n m k)) \<Longrightarrow> 0 \<le> K \<Longrightarrow>
     list_all (branching_ok_ptr ikm) (fst (build_children part ikm tree data labels N K below ks s))"
proof (induction part ikm tree data N K below s and part ikm tree data labels N K below ks s
       rule: build_build_children.induct)
  case (1 part ikm tree data N K s)
  show ?case by (simp add: case_prod_beta Let_def)
next
  case (2 part ikm tree data N K below s)
  obtain flt s1 where fit: "xmeans_filter ikm tree data N K s = (flt, s1)"
    by (cases "xmeans_filter ikm tree data N K s")
  have K: "vl_ikm_get_K ikm flt = K"
    using xmeans_filter_K[OF 2(2), of tree data N K s] fit by simp
  have len: "int (length [0..K - 1]) = K"
    using 2(4) by (simp add: length_upto)
  show ?case
    using 2(1)[OF refl fit[symmetric] refl 2(2) 2(3) 2(4)] K len
    by (simp add: fit case_prod_beta Let_def build_children_length)
next
  case (3 part ikm tree data labels N K below s)
  show ?case by simp
next
  case (4 part ikm tree data labels N K below k ks s)
  obtain subset pN where pt: "part data labels N (hikm_M tree) k = (subset, pN)"
    by (cases "part data labels N (hikm_M tree) k")
  obtain child s1 where bd: "build part ikm tree subset pN (min K pN) below s = (child, s1)"
    by (cases "build part ikm tree subset pN (min K pN) below s")
  have "0 \<le> pN" using 4(4) pt by (metis snd_conv)
  then have m: "0 \<le> min K pN" using 4(5) by simp
  show ?case
    using 4(1)[OF refl pt[symmetric] 4(3) 4(4) m]
      4(2)[OF refl pt[symmetric] refl bd[symmetric] 4(3) 4(4) 4(5)]
    by (simp add: pt bd case_prod_beta Let_def)
qed

lemma branching_ok_nodes:
  "branching_ok ikm node \<Longrightarrow> m \<in> set (nodes_of node) \<Longrightarrow> node_children m = Some children \<Longrightarrow>
     \<exists>flt. node_filter m = Some flt \<and> int (length children) = vl_ikm_get_K ikm flt
           \<and> list_all (branching_ok_ptr ikm) children"
  and branching_ok_ptr_nodes:
  "branching_ok_ptr ikm ptr \<Longrightarrow> m \<in> set (nodes_of_ptr ptr) \<Longrightarrow> node_children m = Some children \<Longrightarrow>
     \<exists>flt. node_filter m = Some flt \<and> int (length children) = vl_ikm_get_K ikm flt
           \<and> list_all (branching_ok_ptr ikm) children"
proof (induction node and ptr rule: nodes_of_nodes_of_ptr.induct)
  case (1 filter_ptr)
  then show ?case by simp
next
  case (2 filter_ptr cs)
  show ?case
  proof (cases "m = VlHIKMNode filter_ptr (Some cs)")
    case True
    with 2(2,4) show ?thesis by (auto split: option.splits)
  next
    case False
    with 2(3) obtain c where c: "c \<in> set cs" "m \<in> set (nodes_of_ptr c)" by auto
    with 2(2) have "branching_ok_ptr ikm c" by (simp add: list_all_iff)
    from 2(1)[OF c(1) this c(2) 2(4)] show ?thesis .
  qed
qed simp_all

subsection \<open>Release and walks\<close>

lemma xdelete_released_by:
  "p = Null \<or> branching_ok_ptr ikm p \<Longrightarrow> xdelete ikm p = Some (released_by_ptr p)"
  and xdelete_children_released_by:
  "filter_ptr = Some flt \<Longrightarrow> int (length children) = vl_ikm_get_K ikm flt \<Longrightarrow>
   list_all (branching_ok_ptr ikm) children \<Longrightarrow> 0 \<le> k \<Longrightarrow>
     xdelete_children ikm filter_ptr children k =
       Some (concat (map released_by_ptr (drop (nat k) children)))"
proof (induction ikm p and ikm filter_ptr children k arbitrary: and flt
       rule: xdelete_xdelete_children.induct)
  case (1 ikm)
  show ?case by simp
next
  case (2 ikm)
  then show ?case by simp
next
  case (3 ikm node)
  obtain fp cp where node: "node = VlHIKMNode fp cp" by (cases node)
  show ?case
  proof (cases cp)
    case None
    then show ?thesis by (simp add: node split: option.splits)
  next
    case (Some children)
    with 3(2) node obtain flt where flt: "fp = Some flt"
      and len: "int (length children) = vl_ikm_get_K ikm flt"
      and all: "list_all (branching_ok_ptr ikm) children"
      by (auto split: option.splits)
    have "xdelete_children ikm (node_filter node) children 0 =
            Some (concat (map released_by_ptr (drop (nat 0) children)))"
      by (rule 3(1)[of children flt]) (simp_all add: node Some flt len all)
    then show ?thesis by (simp add: node Some flt)
  qed
next
  case (4 ikm filter_ptr children k flt)
  show ?case
  proof (cases "k < vl_ikm_get_K ikm flt")
    case False
    then have "drop (nat k) children = []" using 4(4) by simp
    with False 4(3) show ?thesis by (subst xdelete_children.simps) simp
  next
    case True
    then have inr: "nat k < length children" using 4(4,6) by simp
    then have ok: "branching_ok_ptr ikm (children ! nat k)"
      using 4(5) by (simp add: list_all_length)
    have head: "xdelete ikm (children ! nat k) = Some (released_by_ptr (children ! nat k))"
      using 4(1)[OF 4(3) True _ disjI2[OF ok]] 4(6) inr by simp
    have rest: "xdelete_children ikm filter_ptr children (k + 1) =
                  Some (concat (map released_by_ptr (drop (nat (k + 1)) children)))"
      using 4(2)[OF 4(3) True _ head 4(3) 4(4) 4(5)] 4(6) inr by simp
    have nk: "nat (k + 1) = Suc (nat k)" using 4(6) by simp
    have dr: "drop (nat k) children = children ! nat k # drop (nat (k + 1)) children"
      using inr by (simp add: nk Cons_nth_drop_Suc)
    show ?thesis
      using True inr 4(6) rest unfolding 4(3)
      by (subst xdelete_children.simps) (simp add: head dr)
  qed
qed

lemma path_labels_length:
  "has_height_ptr h p \<Longrightarrow> path_labels ikm p x = Some ls \<Longrightarrow> length ls = h"
proof (induction ikm p x arbitrary: h ls rule: path_labels.induct)
  case (1 ikm x)
  then show ?case by simp
next
  case (2 ikm x)
  then show ?case by simp
next
  case (3 ikm node x)
  obtain fp cp where node: "node = VlHIKMNode fp cp" by (cases node)
  from 3(3) node obtain flt where flt: "fp = Some flt" by (auto split: option.splits)
  show ?case
  proof (cases cp)
    case None
    with 3(2,3) node flt show ?thesis by auto
  next
    case (Some children)
    let ?b = "vl_ikm_push ikm flt x"
    from 3(3) node flt Some have inr: "unat ?b < length children"
      by (auto split: if_splits)
    with 3(3) node flt Some obtain below where
      below: "path_labels ikm (children ! unat ?b) x = Some below" and ls: "ls = ?b # below"
      by (auto split: option.splits)
    from 3(2) node Some inr have "1 < h" "has_height_ptr (h - 1) (children ! unat ?b)"
      by (auto simp: list_all_length)
    with 3(1)[of flt children "h - 1" below] node flt Some inr below ls
    show ?thesis by auto
  qed
qed

lemma push_walk_writes:
  "path_labels ikm p (point M data (nat i)) = Some ls \<Longrightarrow> 0 \<le> i * depth + d \<Longrightarrow>
   nat (i * depth + d) + length ls \<le> length asgn \<Longrightarrow>
     push_walk ikm p asgn data i M depth d =
       Some (take (nat (i * depth + d)) asgn @ ls @ drop (nat (i * depth + d) + length ls) asgn)"
proof (induction ikm p asgn data i M depth d arbitrary: ls rule: push_walk.induct)
  case (1 ikm asgn data i M depth d)
  then show ?case by simp
next
  case (2 ikm asgn data i M depth d)
  then show ?case by simp
next
  case (3 ikm node asgn data i M depth d)
  let ?x = "point M data (nat i)"
  let ?off = "nat (i * depth + d)"
  obtain fp cp where node: "node = VlHIKMNode fp cp" by (cases node)
  from 3(2) node obtain flt where flt: "fp = Some flt" by (auto split: option.splits)
  let ?b = "vl_ikm_push ikm flt ?x"
  have ne: "ls \<noteq> []" using 3(2) node flt by (auto split: option.splits if_splits)
  then have inr: "?off < length asgn" using 3(4) by (cases ls) auto
  have upd: "asgn[?off := ?b] = take ?off asgn @ [?b] @ drop (?off + 1) asgn"
    using inr by (simp add: upd_conv_take_nth_drop)
  show ?case
  proof (cases cp)
    case None
    with 3(2) node flt have "ls = [?b]" by simp
    with None node flt inr 3(3) upd show ?thesis by simp
  next
    case (Some children)
    from 3(2) node flt Some have cin: "unat ?b < length children"
      by (auto split: if_splits)
    with 3(2) node flt Some obtain below where
      below: "path_labels ikm (children ! unat ?b) ?x = Some below" and ls: "ls = ?b # below"
      by (auto split: option.splits)
    have off1: "nat (i * depth + (d + 1)) = ?off + 1" using 3(3) by simp
    have "push_walk ikm (children ! unat ?b) (asgn[?off := ?b]) data i M depth (d + 1) =
            Some (take (nat (i * depth + (d + 1))) (asgn[?off := ?b]) @ below
                  @ drop (nat (i * depth + (d + 1)) + length below) (asgn[?off := ?b]))"
    proof (rule 3(1)[of flt ?b "asgn[?off := ?b]" children below])
      show "node_filter node = Some flt" by (simp add: node flt)
      show "?b = vl_ikm_push ikm flt (point M data (nat i))" by simp
      show "0 \<le> i * depth + d \<and> nat (i * depth + d) < length asgn" using 3(3) inr by simp
      show "asgn[?off := ?b] = asgn[?off := ?b]" by simp
      show "node_children node = Some children" by (simp add: node Some)
      show "unat ?b < length children" by (rule cin)
      show "path_labels ikm (children ! unat ?b) (point M data (nat i)) = Some below" by (rule below)
      show "0 \<le> i * depth + (d + 1)" using 3(3) by simp
      show "nat (i * depth + (d + 1)) + length below \<le> length (asgn[?off := ?b])"
        using 3(4) ls off1 by simp
    qed
    moreover have "take (?off + 1) (asgn[?off := ?b]) = take ?off asgn @ [?b]"
      using inr by (simp add: take_Suc_conv_app_nth)
    moreover have "drop (?off + 1 + length below) (asgn[?off := ?b]) = drop (?off + length ls) asgn"
      by (simp add: ls)
    ultimately show ?thesis
      using node flt Some cin inr 3(3) by (simp add: off1 ls)
  qed
qed

lemma drop_written:
  assumes "length p = m" "(c + 1) * m \<le> n" "n \<le> length buf"
  shows "drop n (take (c * m) buf @ p @ drop (c * m + m) buf) = drop n buf"
proof -
  have le: "c * m + m \<le> n" using assms(2) by simp
  then have la: "length (take (c * m) buf @ p) = c * m + m"
    using assms(1,3) by simp
  have "drop n (take (c * m) buf @ p) = []"
    using le la by simp
  then have "drop n ((take (c * m) buf @ p) @ drop (c * m + m) buf) =
          drop (n - (c * m + m)) (drop (c * m + m) buf)"
    by (simp only: drop_append la append_Nil)
  also have "\<dots> = drop n buf" using le by simp
  finally show ?thesis by simp
qed

lemma push_data_writes:
  "has_height_ptr D (hikm_root f) \<Longrightarrow> hikm_depth f = int D \<Longrightarrow>
   \<forall>j < nat N. path_labels ikm (hikm_root f) (point (hikm_M f) data j) = Some (ps j) \<Longrightarrow>
   0 \<le> i \<Longrightarrow> i \<le> N \<Longrightarrow> nat N * D \<le> length asgn \<Longrightarrow>
     push_data ikm f asgn data N i =
       Some (take (nat i * D) asgn @ concat (map ps [nat i..<nat N]) @ drop (nat N * D) asgn)"
proof (induction ikm f asgn data N i rule: push_data.induct)
  case (1 ikm f asgn data N i)
  note hh = 1(2) and dep = 1(3) and walks = 1(4) and i0 = 1(5) and iN = 1(6) and len = 1(7)
  show ?case
  proof (cases "i < N")
    case False
    with iN have "i = N" by simp
    then show ?thesis using len by (subst push_data.simps) simp
  next
    case True
    have lt: "nat i < nat N" using True i0 by simp
    have walk: "path_labels ikm (hikm_root f) (point (hikm_M f) data (nat i)) = Some (ps (nat i))"
      using walks lt by simp
    have pl: "length (ps (nat i)) = D"
      using path_labels_length[OF hh walk] .
    have "nat i + 1 \<le> nat N" using True i0 by arith
    then have fits: "(nat i + 1) * D \<le> nat N * D"
      by (rule mult_le_mono1)
    with len have fits': "(nat i + 1) * D \<le> length asgn" by simp
    have off: "nat (i * int D + 0) = nat i * D"
      using i0 by (simp add: nat_mult_distrib)
    let ?asgn1 = "take (nat i * D) asgn @ ps (nat i) @ drop (nat i * D + D) asgn"
    have w: "push_walk ikm (hikm_root f) asgn data i (hikm_M f) (int D) 0 = Some ?asgn1"
    proof -
      have a: "0 \<le> i * int D + 0" using i0 by simp
      have b: "nat (i * int D + 0) + length (ps (nat i)) \<le> length asgn"
        unfolding off pl using fits' by simp
      show ?thesis
        using push_walk_writes[OF walk a b] unfolding off pl .
    qed
    have len1: "length ?asgn1 = length asgn"
      using pl fits' by (rule length_written)
    have w': "push_walk ikm (hikm_root f) asgn data i (vl_hikm_get_ndims f) (vl_hikm_get_depth f) 0
                = Some ?asgn1"
      using w by (simp add: vl_hikm_get_ndims_def vl_hikm_get_depth_def dep)
    have i1: "0 \<le> i + 1" "i + 1 \<le> N" using i0 True by simp_all
    have len1': "nat N * D \<le> length ?asgn1" unfolding len1 by (rule len)
    have IH: "push_data ikm f ?asgn1 data N (i + 1) =
        Some (take (nat (i + 1) * D) ?asgn1 @ concat (map ps [nat (i + 1)..<nat N])
              @ drop (nat N * D) ?asgn1)"
      by (rule 1(1)[OF True w' hh dep walks i1 len1'])
    have n1: "nat (i + 1) = nat i + 1" using i0 by simp
    have tk: "take (nat (i + 1) * D) ?asgn1 = take (nat i * D) asgn @ ps (nat i)"
      unfolding n1 using pl fits' by (rule take_written)
    have dr: "drop (nat N * D) ?asgn1 = drop (nat N * D) asgn"
      using pl fits len by (rule drop_written)
    have upt: "[nat i..<nat N] = nat i # [nat (i + 1)..<nat N]"
      using i0 True by (rule upt_conv_Cons_int)
    have "push_data ikm f asgn data N i = push_data ikm f ?asgn1 data N (i + 1)"
      using True by (subst push_data.simps) (simp add: w')
    then show ?thesis
      unfolding IH tk dr upt by simp
  qed
qed

subsection \<open>Trained trees\<close>

lemma trained_0_1_9_10_eq:
  "trained_0_1_9_10 =
     \<lparr>hikm_M = 1, hikm_K = 2, hikm_max_niters = 200, hikm_method = 0, hikm_verb = 0, hikm_depth = 2,
      hikm_root = Ptr (VlHIKMNode (Some (2, [[0], [1]]))
         (Some [Ptr (VlHIKMNode (Some (1, [[0]])) None),
                Ptr (VlHIKMNode (Some (2, [[1], [9]])) None)]))\<rparr>"
  by code_simp

lemma mean_trained_5_5_eq:
  "mean_trained_5_5 =
     \<lparr>hikm_M = 1, hikm_K = 2, hikm_max_niters = 200, hikm_method = 0, hikm_verb = 0, hikm_depth = 3,
      hikm_root = Ptr (VlHIKMNode (Some (2, [[5], [0]]))
             (Some
               [Ptr (VlHIKMNode (Some (2, [[5], [0]]))
                      (Some
                        [Ptr (VlHIKMNode (Some (2, [[5], [0]])) None),
                         Ptr (VlHIKMNode (Some (0, [])) None)])),
                Ptr (VlHIKMNode (Some (0, [])) (Some []))]))\<rparr>"
  by code_simp

lemma first_points_keeps_K: "ikm_keeps_K first_points_ikm"
  by (simp add: ikm_keeps_K_def first_points_ikm_def)

lemma mean_keeps_K: "ikm_keeps_K mean_ikm"
  by (simp add: ikm_keeps_K_def mean_ikm_def)

lemma vl_hikm_train_root:
  "vl_hikm_train ikm f data N s =
     (f\<lparr>hikm_root := Ptr (fst (xmeans ikm f data N (min (hikm_K f) N) (hikm_depth f) s))\<rparr>,
      snd (xmeans ikm f data N (min (hikm_K f) N) (hikm_depth f) s))"
  by (simp add: vl_hikm_train_def case_prod_beta)

lemma xmeans_has_height:
  assumes "1 \<le> height" "0 \<le> K"
  shows "has_height (nat height) (fst (xmeans ikm tree data N K height s))"
proof -
  have "Suc (nat (height - 1)) = nat height" using assms(1) by simp
  then show ?thesis
    using build_has_height[of "nat (height - 1)" "copy_subset_of ikm" ikm tree data N K s]
      xmeans_refines[of height K ikm tree data N s] assms
    by simp
qed

lemma xmeans_branching_ok:
  assumes "ikm_keeps_K ikm" "1 \<le> height" "0 \<le> K"
  shows "branching_ok ikm (fst (xmeans ikm tree data N K height s))"
proof -
  have "\<forall>d l n m k. 0 \<le> snd (copy_subset_of ikm d l n m k)"
    by (simp add: copy_subset_of_count)
  from build_branching_ok[OF assms(1) this assms(3)] xmeans_refines[of height K ikm tree data N s]
    assms(2,3)
  show ?thesis by simp
qed

lemma copy_subset_of_partitioner:
  assumes "0 \<le> M" "nat N * nat M \<le> length data"
  shows "copy_subset_of ikm data labels N M k = partitioner data labels N M k"
  using vl_hikm_copy_subset_eq[OF assms] by (simp add: copy_subset_of_def partitioner_def)

lemma length_selected_points:
  assumes "0 \<le> M" "nat N * nat M \<le> length data" "\<forall>i \<in> set sel. i < nat N"
  shows "length (concat (map (point M data) sel)) = length sel * nat M"
  using assms(3)
proof (induction sel)
  case Nil
  then show ?case by simp
next
  case (Cons i sel)
  then have "i + 1 \<le> nat N" by simp
  then have "(i + 1) * nat M \<le> nat N * nat M" by (rule mult_le_mono1)
  with assms(2) have "(i + 1) * nat M \<le> length data" by simp
  with assms(1) have "length (point M data i) = nat M" by (rule point_in_range)
  with Cons show ?case by simp
qed

lemma partitioner_fits:
  assumes "0 \<le> M" "nat N * nat M \<le> length data"
  shows "nat (snd (partitioner data labels N M k)) * nat M
           \<le> length (fst (partitioner data labels N M k))"
proof -
  have "\<forall>i \<in> set (labelled labels N (word_of_int k)). i < nat N"
    by (simp add: labelled_def)
  from length_selected_points[OF assms this] show ?thesis
    by (simp add: partitioner_def)
qed

lemma build_children_partitioner:
  assumes IH: "\<And>data N K s. nat N * nat (hikm_M tree) \<le> length data \<Longrightarrow>
            build (copy_subset_of ikm) ikm tree data N K below s =
            build partitioner ikm tree data N K below (s :: 's)"
    and M: "0 \<le> hikm_M tree" and len: "nat N * nat (hikm_M tree) \<le> length data"
  shows "build_children (copy_subset_of ikm) ikm tree data labels N K below ks s =
         build_children partitioner ikm tree data labels N K below ks s"
proof (induction ks arbitrary: s)
  case Nil
  show ?case by simp
next
  case (Cons k ks)
  have p: "copy_subset_of ikm data labels N (hikm_M tree) k = partitioner data labels N (hikm_M tree) k"
    using M len by (rule copy_subset_of_partitioner)
  have fits: "nat (snd (partitioner data labels N (hikm_M tree) k)) * nat (hikm_M tree)
           \<le> length (fst (partitioner data labels N (hikm_M tree) k))"
    using M len by (rule partitioner_fits)
  show ?case
    by (simp add: p IH[OF fits] Cons.IH case_prod_beta Let_def)
qed

lemma build_partitioner:
  "0 \<le> hikm_M tree \<Longrightarrow> nat N * nat (hikm_M tree) \<le> length data \<Longrightarrow>
     build (copy_subset_of ikm) ikm tree data N K below s =
     build partitioner ikm tree data N K below (s :: 's)"
proof (induction below arbitrary: data N K s)
  case 0
  show ?case by simp
next
  case (Suc below)
  have "\<And>labels s1. build_children (copy_subset_of ikm) ikm tree data labels N K below [0..K - 1] s1 =
         build_children partitioner ikm tree data labels N K below [0..K - 1] s1"
    by (rule build_children_partitioner[OF Suc.IH[OF Suc.prems(1)] Suc.prems])
  then show ?case by simp
qed

lemma segment_concat:
  assumes "\<forall>p \<in> set pss. length p = m" "j < length pss"
  shows "take m (drop (j * m) (concat pss @ rest)) = pss ! j"
  using assms
proof (induction pss arbitrary: j)
  case Nil
  then show ?case by simp
next
  case (Cons p pss)
  show ?case
  proof (cases j)
    case 0
    with Cons.prems show ?thesis by simp
  next
    case (Suc j')
    with Cons show ?thesis by simp
  qed
qed

lemma nth_of_segment:
  assumes "take m (drop off xs) = seg" "d < m" "off + m \<le> length xs"
  shows "xs ! (off + d) = seg ! d"
proof -
  have "seg ! d = drop off xs ! d" using assms(1,2) by auto
  also have "\<dots> = xs ! (off + d)" using assms(3) by simp
  finally show ?thesis by simp
qed

lemma length_concat_same:
  "\<forall>p \<in> set pss. length p = m \<Longrightarrow> length (concat pss) = length pss * m"
  by (induction pss) simp_all

lemma vl_hikm_push_writes:
  assumes "has_height_ptr D (hikm_root f)" and "hikm_depth f = int D"
    and "\<forall>j < nat N. path_labels ikm (hikm_root f) (point (hikm_M f) data j) = Some (ps j)"
    and "0 \<le> N" and "nat N * D \<le> length asgn"
  shows "vl_hikm_push ikm f asgn data N =
           Some (concat (map ps [0..<nat N]) @ drop (nat N * D) asgn)"
proof -
  have "push_data ikm f asgn data N 0 =
          Some (take (nat 0 * D) asgn @ concat (map ps [nat 0..<nat N]) @ drop (nat N * D) asgn)"
    using assms(1,2,3) _ assms(4,5) by (rule push_data_writes) simp
  then show ?thesis by (simp add: vl_hikm_push_def)
qed

lemma trained_has_height:
  assumes "1 \<le> hikm_depth f0" "0 \<le> hikm_K f0" "0 \<le> N0"
  shows "has_height_ptr (nat (hikm_depth f0)) (hikm_root (fst (vl_hikm_train ikm f0 data0 N0 s0)))
         \<and> hikm_depth (fst (vl_hikm_train ikm f0 data0 N0 s0)) = int (nat (hikm_depth f0))"
proof -
  have "0 \<le> min (hikm_K f0) N0" using assms(2,3) by simp
  from xmeans_has_height[OF assms(1) this, of ikm f0 data0 N0 s0] assms(1)
  show ?thesis by (simp add: vl_hikm_train_root)
qed

lemma trained_branching_ok:
  assumes "ikm_keeps_K ikm" "1 \<le> hikm_depth f0" "0 \<le> hikm_K f0" "0 \<le> N0"
  shows "branching_ok_ptr ikm (hikm_root (fst (vl_hikm_train ikm f0 data0 N0 s0)))"
proof -
  have "0 \<le> min (hikm_K f0) N0" using assms(3,4) by simp
  from xmeans_branching_ok[OF assms(1,2) this, of f0 data0 N0 s0]
  show ?thesis by (simp add: vl_hikm_train_root)
qed

lemma trained_0_1_9_10_train:
  "trained_0_1_9_10 = fst (vl_hikm_train first_points_ikm (configured 2) [0, 1, 9, 10] 4 0)"
  by (simp add: trained_0_1_9_10_def)

subsection \<open>Empty clusters\<close>

text \<open>
  Two equal points get the same label from any filter, so one of the labels 0 and 1 selects
  no point. The child that \<open>xmeans\<close> builds for such a label has \<open>K = 0\<close>; above the last
  level its children array is allocated with no cell, and no walk can go on from it.
\<close>

lemma equal_points_leave_a_cluster_empty:
  assumes "length p = nat M"
  shows "\<exists>k \<in> {0, 1}. snd (copy_subset_of ikm (p @ p) (vl_ikm_push_all ikm flt (p @ p) M 2) 2 M k) = 0"
proof -
  have p0: "point M (p @ p) 0 = p" and p1: "point M (p @ p) (Suc 0) = p"
    using assms by (simp_all add: point_def)
  let ?l = "vl_ikm_push ikm flt p"
  have ids: "vl_ikm_push_all ikm flt (p @ p) M 2 = [?l, ?l]"
    by (simp add: vl_ikm_push_all_def p0 p1 upt_rec numeral_2_eq_2)
  have up: "[0..<nat 2] = [0, Suc 0]"
    by (simp add: upt_rec numeral_2_eq_2)
  show ?thesis
  proof (cases "?l = 0")
    case True
    then have "labelled [?l, ?l] 2 (word_of_int 1) = []"
      unfolding labelled_def up by simp
    then show ?thesis by (simp add: copy_subset_of_count ids)
  next
    case False
    then have "labelled [?l, ?l] 2 (word_of_int 0) = []"
      unfolding labelled_def up by simp
    then show ?thesis by (simp add: copy_subset_of_count ids)
  qed
qed

lemma empty_cluster_node:
  assumes "1 < height"
  shows "node_children (fst (xmeans ikm tree data N 0 height s)) = Some []
         \<and> path_labels ikm (Ptr (fst (xmeans ikm tree data N 0 height s))) x = None"
proof -
  have "xmeans ikm tree data N 0 height s =
          (VlHIKMNode (Some (fst (xmeans_filter ikm tree data N 0 s))) (Some []),
           snd (xmeans_filter ikm tree data N 0 s))"
    using assms
    by (simp add: xmeans.simps xmeans_children.simps vl_malloc_def case_prod_beta Let_def)
  then show ?thesis by simp
qed

lemma branches_step:
  assumes "c \<in> set children" "q \<in> set (branches_ptr c)"
  shows "VlHIKMNode filter_ptr (Some children) # q
           \<in> set (branches (VlHIKMNode filter_ptr (Some children)))"
proof (cases children)
  case Nil
  with assms(1) show ?thesis by simp
next
  case (Cons c' cs')
  have "q \<in> set (concat (map branches_ptr children))"
    using assms by auto
  then show ?thesis unfolding Cons by (simp only: branches.simps set_map) (rule imageI)
qed

lemma equal_points_dead_end:
  assumes "length p = nat (hikm_M tree)" and "hikm_K tree = 2" and "hikm_depth tree = 3"
  shows "\<exists>r children filter_ptr.
           hikm_root (fst (vl_hikm_train ikm tree (p @ p) 2 s)) = Ptr r
           \<and> node_children r = Some children
           \<and> Ptr (VlHIKMNode filter_ptr (Some [])) \<in> set children
           \<and> [r, VlHIKMNode filter_ptr (Some [])] \<in> set (branches r)"
proof -
  let ?part = "copy_subset_of ikm"
  let ?data = "p @ p"
  let ?M = "hikm_M tree"
  let ?flt = "fst (xmeans_filter ikm tree ?data 2 2 s)"
  let ?s1 = "snd (xmeans_filter ikm tree ?data 2 2 s)"
  let ?labels = "vl_ikm_push_all ikm ?flt ?data ?M 2"
  let ?cs = "fst (build_children ?part ikm tree ?data ?labels 2 2 (Suc 0) [0..2 - 1] ?s1)"
  let ?r = "VlHIKMNode (Some ?flt) (Some ?cs)"
  have n: "nat (3 - 1) = Suc (Suc 0)" by simp
  have "xmeans ikm tree ?data 2 2 3 s = build ?part ikm tree ?data 2 2 (Suc (Suc 0)) s"
    using xmeans_refines[of 3 2 ikm tree ?data 2 s, unfolded n] by simp
  then have root: "fst (xmeans ikm tree ?data 2 2 3 s) = ?r"
    by (simp add: case_prod_beta Let_def)
  have len: "length ?cs = 2"
    by (simp add: build_children_length)
  from equal_points_leave_a_cluster_empty[OF assms(1), of ikm ?flt]
  obtain k where k: "k = 0 \<or> k = 1" and empty: "snd (?part ?data ?labels 2 ?M k) = 0"
    by auto
  have j: "nat k < length [0..(2::int) - 1]" using k by auto
  have kth: "[0..(2::int) - 1] ! nat k = k" using k by (auto simp: upto_rec1)
  from build_children_nth[OF j, of ?part ikm tree ?data ?labels 2 2 "Suc 0" ?s1]
  obtain s2 where "?cs ! nat k =
      Ptr (fst (build ?part ikm tree (fst (?part ?data ?labels 2 ?M k)) 0 0 (Suc 0) s2))"
    unfolding kth empty by auto
  then obtain fp where dead: "?cs ! nat k = Ptr (VlHIKMNode fp (Some []))"
    by (simp add: case_prod_beta Let_def)
  have "nat k < length ?cs" using j len by simp
  then have "?cs ! nat k \<in> set ?cs" by (rule nth_mem)
  then have mem: "Ptr (VlHIKMNode fp (Some [])) \<in> set ?cs"
    unfolding dead .
  have "[VlHIKMNode fp (Some [])] \<in> set (branches_ptr (Ptr (VlHIKMNode fp (Some []))))"
    by simp
  with mem have "[?r, VlHIKMNode fp (Some [])] \<in> set (branches ?r)"
    by (rule branches_step)
  with mem show ?thesis
    using assms(2,3) root by (auto simp: vl_hikm_train_root)
qed

subsection \<open>Away from empty clusters\<close>

text \<open>
  When the walk of every query point stays inside the tree, \<open>vl_hikm_push\<close> returns and
  records for every point the \<open>D\<close> labels of its walk, which depend on that point alone.
  In every node with a children array the array has as many cells as its filter has
  centers.
\<close>

lemma push_inside_tree:
  assumes "1 \<le> hikm_depth f0" and "f = fst (vl_hikm_train ikm f0 data0 N0 s0)"
    and "0 \<le> N" and "nat N * nat (hikm_depth f) \<le> length asgn"
    and "\<forall>i < nat N. path_labels ikm (hikm_root f) (point (hikm_M f) data i) \<noteq> None"
    and "0 \<le> hikm_K f0" and "0 \<le> N0"
  shows "\<exists>asgn1. vl_hikm_push ikm f asgn data N = Some asgn1
           \<and> length asgn1 = length asgn
           \<and> (\<forall>i < nat N. \<exists>labels.
                 path_labels ikm (hikm_root f) (point (hikm_M f) data i) = Some labels
                 \<and> length labels = nat (hikm_depth f)
                 \<and> (\<forall>d < nat (hikm_depth f). asgn1 ! (i * nat (hikm_depth f) + d) = labels ! d))
           \<and> drop (nat N * nat (hikm_depth f)) asgn1 = drop (nat N * nat (hikm_depth f)) asgn"
proof -
  let ?D = "nat (hikm_depth f)"
  let ?ps = "\<lambda>j. the (path_labels ikm (hikm_root f) (point (hikm_M f) data j))"
  let ?out = "concat (map ?ps [0..<nat N]) @ drop (nat N * ?D) asgn"
  have dep: "hikm_depth f = hikm_depth f0"
    by (simp add: assms(2) vl_hikm_train_root)
  have hh: "has_height_ptr ?D (hikm_root f)" and depD: "hikm_depth f = int ?D"
    using trained_has_height[OF assms(1,6,7), of ikm data0 s0] dep
    by (simp_all add: assms(2))
  have walks: "\<forall>j < nat N. path_labels ikm (hikm_root f) (point (hikm_M f) data j) = Some (?ps j)"
    using assms(5) by auto
  have pl: "length (?ps j) = ?D" if "j < nat N" for j
    using path_labels_length[OF hh] walks that by blast
  have all: "\<forall>p \<in> set (map ?ps [0..<nat N]). length p = ?D"
    using pl by auto
  have push: "vl_hikm_push ikm f asgn data N = Some ?out"
    using hh depD walks assms(3,4) by (rule vl_hikm_push_writes)
  have lc: "length (concat (map ?ps [0..<nat N])) = nat N * ?D"
    using length_concat_same[OF all] by simp
  have len: "length ?out = length asgn"
    using lc assms(4) by simp
  have seg: "take ?D (drop (i * ?D) ?out) = ?ps i" if "i < nat N" for i
    using segment_concat[OF all, of i "drop (nat N * ?D) asgn"] that by simp
  have nth: "?out ! (i * ?D + d) = ?ps i ! d" if "i < nat N" "d < ?D" for i d
  proof -
    have "i + 1 \<le> nat N" using that(1) by simp
    then have "(i + 1) * ?D \<le> nat N * ?D" by (rule mult_le_mono1)
    then have "i * ?D + ?D \<le> length ?out" unfolding len using assms(4) by simp
    with seg[OF that(1)] that(2) show ?thesis by (rule nth_of_segment)
  qed
  have "\<forall>i < nat N. \<exists>labels.
          path_labels ikm (hikm_root f) (point (hikm_M f) data i) = Some labels
          \<and> length labels = ?D \<and> (\<forall>d < ?D. ?out ! (i * ?D + d) = labels ! d)"
    using walks pl nth by blast
  moreover have "drop (nat N * ?D) ?out = drop (nat N * ?D) asgn"
    using lc by simp
  ultimately show ?thesis
    using push len by blast
qed

lemma push_pointwise_inside_tree:
  assumes "1 \<le> hikm_depth f0" and "f = fst (vl_hikm_train ikm f0 data0 N0 s0)"
    and "0 \<le> N" and "nat N * nat (hikm_depth f) \<le> length asgn"
    and "\<forall>j < nat N. path_labels ikm (hikm_root f) (point (hikm_M f) data j) \<noteq> None"
    and "0 \<le> N'" and "nat N' * nat (hikm_depth f) \<le> length asgn'"
    and "\<forall>j < nat N'. path_labels ikm (hikm_root f) (point (hikm_M f) data' j) \<noteq> None"
    and "i < nat N" and "i < nat N'"
    and "point (hikm_M f) data i = point (hikm_M f) data' i"
    and "0 \<le> hikm_K f0" and "0 \<le> N0"
  shows "\<exists>out out'. vl_hikm_push ikm f asgn data N = Some out
           \<and> vl_hikm_push ikm f asgn' data' N' = Some out'
           \<and> take (nat (hikm_depth f)) (drop (i * nat (hikm_depth f)) out)
               = take (nat (hikm_depth f)) (drop (i * nat (hikm_depth f)) out')
           \<and> Some (take (nat (hikm_depth f)) (drop (i * nat (hikm_depth f)) out))
               = path_labels ikm (hikm_root f) (point (hikm_M f) data i)"
proof -
  let ?D = "nat (hikm_depth f)"
  let ?ps = "\<lambda>data j. the (path_labels ikm (hikm_root f) (point (hikm_M f) data j))"
  have dep: "hikm_depth f = hikm_depth f0"
    by (simp add: assms(2) vl_hikm_train_root)
  have hh: "has_height_ptr ?D (hikm_root f)" and depD: "hikm_depth f = int ?D"
    using trained_has_height[OF assms(1,12,13), of ikm data0 s0] dep
    by (simp_all add: assms(2))
  have seg: "vl_hikm_push ikm f a d n = Some (concat (map (?ps d) [0..<nat n]) @ drop (nat n * ?D) a)
             \<and> take ?D (drop (i * ?D) (concat (map (?ps d) [0..<nat n]) @ drop (nat n * ?D) a)) = ?ps d i
             \<and> path_labels ikm (hikm_root f) (point (hikm_M f) d i) = Some (?ps d i)"
    if n0: "0 \<le> n" and len: "nat n * ?D \<le> length a"
      and wk: "\<forall>j < nat n. path_labels ikm (hikm_root f) (point (hikm_M f) d j) \<noteq> None"
      and i: "i < nat n" for a d n
  proof -
    have walks: "\<forall>j < nat n. path_labels ikm (hikm_root f) (point (hikm_M f) d j) = Some (?ps d j)"
      using wk by auto
    have pl: "length (?ps d j) = ?D" if "j < nat n" for j
      using path_labels_length[OF hh] walks that by blast
    have all: "\<forall>p \<in> set (map (?ps d) [0..<nat n]). length p = ?D"
      using pl by auto
    have "vl_hikm_push ikm f a d n = Some (concat (map (?ps d) [0..<nat n]) @ drop (nat n * ?D) a)"
      using hh depD walks n0 len by (rule vl_hikm_push_writes)
    moreover have "take ?D (drop (i * ?D) (concat (map (?ps d) [0..<nat n]) @ drop (nat n * ?D) a))
                     = ?ps d i"
      using segment_concat[OF all, of i "drop (nat n * ?D) a"] i by simp
    ultimately show ?thesis using walks i by blast
  qed
  from seg[OF assms(3,4,5,9)] seg[OF assms(6,7,8,10)] assms(11)
  show ?thesis by auto
qed

lemma children_array_matches_K:
  assumes "ikm_keeps_K ikm" and "1 \<le> height" and "0 \<le> K"
    and "m \<in> set (nodes_of (fst (xmeans ikm tree data N K height s)))"
    and "node_children m = Some children"
  shows "\<exists>flt. node_filter m = Some flt
           \<and> int (length children) = vl_ikm_get_K ikm flt
           \<and> list_all (\<lambda>c. c \<noteq> Null \<and> c \<noteq> Indeterminate) children
           \<and> xdelete_children ikm (node_filter m) children 0
               = Some (concat (map released_by_ptr children))
           \<and> (\<forall>x. uint (vl_ikm_push ikm flt x) < vl_ikm_get_K ikm flt \<longrightarrow>
                  unat (vl_ikm_push ikm flt x) < length children)"
proof -
  have ok: "branching_ok ikm (fst (xmeans ikm tree data N K height s))"
    using assms(1,2,3) by (rule xmeans_branching_ok)
  from branching_ok_nodes[OF ok assms(4,5)] obtain flt where
    flt: "node_filter m = Some flt" and len: "int (length children) = vl_ikm_get_K ikm flt"
    and all: "list_all (branching_ok_ptr ikm) children"
    by blast
  have ptrs: "list_all (\<lambda>c. c \<noteq> Null \<and> c \<noteq> Indeterminate) children"
    using all by (auto simp: list_all_iff)
  have del: "xdelete_children ikm (node_filter m) children 0
               = Some (concat (map released_by_ptr children))"
    using xdelete_children_released_by[OF flt len all, of 0] by simp
  have "unat (vl_ikm_push ikm flt x) < length children"
    if "uint (vl_ikm_push ikm flt x) < vl_ikm_get_K ikm flt" for x
  proof -
    have "uint (vl_ikm_push ikm flt x) < int (length children)" using that len by simp
    then have "int (unat (vl_ikm_push ikm flt x)) < int (length children)"
      by (simp only: uint_nat)
    then show ?thesis by (simp only: of_nat_less_iff)
  qed
  with flt len ptrs del show ?thesis by blast
qed
section \<open>The claims\<close>

text \<open>
  C1 claims that every path from the root to a leaf has exactly \<open>D\<close> nodes and that the
  clamping of the branching factor never shortens a path. On two equal points with
  \<open>K = 2\<close> and depth 3 the code builds a tree of depth 3 with a branch of two nodes: the
  child for the empty cluster is built with \<open>min (2, 0) = 0\<close> centers at height 2, where
  line 99 allocates a children array without a cell and the loop of line 110 builds no
  child. The branch ends there, one level above the leaves. This holds for every filter
  (lemma \<open>equal_points_dead_end\<close>: equal points get equal labels, so a cluster is empty).
\<close>

theorem dead_end_branch:
  "hikm_depth mean_trained_5_5 = 3
   \<and> map length (branches_ptr (hikm_root mean_trained_5_5)) = [3, 3, 2]"
  by (simp add: mean_trained_5_5_eq)

text \<open>
  C2. A node that \<open>xmeans\<close> builds with \<open>height = 1\<close> is a leaf: its children pointer is
  null. Its filter is the one trained with the branching factor \<open>K\<close> of the call. A node
  built with \<open>height > 1\<close> and \<open>K \<ge> 0\<close> has a children array of exactly \<open>K\<close> cells, and
  the cell \<open>k\<close> points to the node that \<open>xmeans\<close> builds at \<open>height - 1\<close> on the partition of
  the label \<open>k\<close>, of \<open>N\<^sub>k\<close> points, with the branching factor \<open>min K N\<^sub>k\<close>, where \<open>N\<^sub>k\<close> is
  the number of points that the filter of the node labels \<open>k\<close>.
\<close>

theorem xmeans_children_array:
  "node_children (fst (xmeans ikm tree data N K 1 s)) = None
   \<and> node_filter (fst (xmeans ikm tree data N K height s))
       = Some (fst (xmeans_filter ikm tree data N K s))
   \<and> (1 < height \<longrightarrow> 0 \<le> K \<longrightarrow>
        (\<exists>children.
           node_children (fst (xmeans ikm tree data N K height s)) = Some children
           \<and> int (length children) = K
           \<and> (\<forall>k. 0 \<le> k \<and> k < K \<longrightarrow>
                snd (copy_subset_of ikm data (xmeans_ids ikm tree data N K s) N (hikm_M tree) k)
                  = int (length (labelled (xmeans_ids ikm tree data N K s) N (word_of_int k)))
                \<and> (\<exists>s1. children ! nat k =
                      Ptr (fst (xmeans ikm tree
                        (fst (copy_subset_of ikm data (xmeans_ids ikm tree data N K s) N (hikm_M tree) k))
                        (snd (copy_subset_of ikm data (xmeans_ids ikm tree data N K s) N (hikm_M tree) k))
                        (min K (snd (copy_subset_of ikm data (xmeans_ids ikm tree data N K s) N
                                       (hikm_M tree) k)))
                        (height - 1) s1))))))"
proof (intro conjI impI)
  show "node_children (fst (xmeans ikm tree data N K 1 s)) = None"
    by (simp add: xmeans.simps case_prod_beta)
  show "node_filter (fst (xmeans ikm tree data N K height s))
          = Some (fst (xmeans_filter ikm tree data N K s))"
    by (simp add: xmeans.simps case_prod_beta Let_def split: option.splits)
next
  assume gt: "1 < height" and K0: "0 \<le> K"
  let ?part = "copy_subset_of ikm"
  let ?ids = "xmeans_ids ikm tree data N K s"
  let ?s1 = "snd (xmeans_filter ikm tree data N K s)"
  let ?cs = "fst (build_children ?part ikm tree data ?ids N K (nat (height - 2)) [0..K - 1] ?s1)"
  have below: "nat (height - 1) = Suc (nat (height - 2))" using gt by simp
  have "xmeans ikm tree data N K height s = build ?part ikm tree data N K (Suc (nat (height - 2))) s"
    using xmeans_refines[of height K ikm tree data N s] gt K0 by (simp add: below)
  then have ch: "node_children (fst (xmeans ikm tree data N K height s)) = Some ?cs"
    by (simp add: case_prod_beta Let_def xmeans_ids_def)
  have len: "int (length ?cs) = K"
    using K0 by (simp add: build_children_length)
  have nth: "\<exists>s1. ?cs ! nat k =
                Ptr (fst (xmeans ikm tree (fst (?part data ?ids N (hikm_M tree) k))
                        (snd (?part data ?ids N (hikm_M tree) k))
                        (min K (snd (?part data ?ids N (hikm_M tree) k))) (height - 1) s1))"
    if k: "0 \<le> k \<and> k < K" for k
  proof -
    have j: "nat k < length [0..K - 1]" using k by simp
    have kth: "[0..K - 1] ! nat k = k" using k by simp
    from build_children_nth[OF j, of ?part ikm tree data ?ids N K "nat (height - 2)" ?s1]
    obtain s1 where "?cs ! nat k =
        Ptr (fst (build ?part ikm tree (fst (?part data ?ids N (hikm_M tree) k))
                   (snd (?part data ?ids N (hikm_M tree) k))
                   (min K (snd (?part data ?ids N (hikm_M tree) k))) (nat (height - 2)) s1))"
      unfolding kth by blast
    moreover have "xmeans ikm tree d n (min K (snd (?part data ?ids N (hikm_M tree) k))) (height - 1) s1 =
                     build ?part ikm tree d n (min K (snd (?part data ?ids N (hikm_M tree) k)))
                       (nat (height - 2)) s1" for d n
    proof -
      have "nat (height - 1 - 1) = nat (height - 2)" by simp
      moreover have "0 \<le> min K (snd (?part data ?ids N (hikm_M tree) k))"
        using K0 by (simp add: copy_subset_of_count)
      ultimately show ?thesis
        using xmeans_refines[of "height - 1" "min K (snd (?part data ?ids N (hikm_M tree) k))"
            ikm tree d n s1] gt
        by simp
    qed
    ultimately show ?thesis
      by (intro exI[of _ s1]) simp
  qed
  show "\<exists>children.
           node_children (fst (xmeans ikm tree data N K height s)) = Some children
           \<and> int (length children) = K
           \<and> (\<forall>k. 0 \<le> k \<and> k < K \<longrightarrow>
                snd (?part data ?ids N (hikm_M tree) k)
                  = int (length (labelled ?ids N (word_of_int k)))
                \<and> (\<exists>s1. children ! nat k =
                      Ptr (fst (xmeans ikm tree
                        (fst (?part data ?ids N (hikm_M tree) k))
                        (snd (?part data ?ids N (hikm_M tree) k))
                        (min K (snd (?part data ?ids N (hikm_M tree) k)))
                        (height - 1) s1))))"
    using ch len nth copy_subset_of_count by blast
qed

text \<open>
  The root built on 0, 1, 9, 10 with \<open>K = 2\<close>: a leaf at height 1, two children at height 2;
  three points carry the label 1.
\<close>

theorem xmeans_children_array_witness:
  "(1::int) < 2 \<and> (0::int) \<le> 2
   \<and> node_children (fst (xmeans first_points_ikm (configured 2) [0, 1, 9, 10] 4 2 1 0)) = None
   \<and> node_children (fst (xmeans first_points_ikm (configured 2) [0, 1, 9, 10] 4 2 2 0))
       = Some [Ptr (VlHIKMNode (Some (1, [[0]])) None),
               Ptr (VlHIKMNode (Some (2, [[1], [9]])) None)]
   \<and> snd (copy_subset_of first_points_ikm [0, 1, 9, 10]
             (xmeans_ids first_points_ikm (configured 2) [0, 1, 9, 10] 4 2 0) 4 1 1) = 3"
proof -
  have "node_children (fst (xmeans first_points_ikm (configured 2) [0, 1, 9, 10] 4 2 2 0))
       = Some [Ptr (VlHIKMNode (Some (1, [[0]])) None),
               Ptr (VlHIKMNode (Some (2, [[1], [9]])) None)]"
    by code_simp
  moreover have "snd (copy_subset_of first_points_ikm [0, 1, 9, 10]
             (xmeans_ids first_points_ikm (configured 2) [0, 1, 9, 10] 4 2 0) 4 1 1) = 3"
    by code_simp
  ultimately show ?thesis
    using xmeans_children_array[of first_points_ikm "configured 2" "[0, 1, 9, 10]" 4 2 0 2]
    by simp
qed

text \<open>
  C3. On a data array that holds its \<open>N\<close> points, \<open>xmeans\<close> with \<open>height \<ge> 1\<close> and
  \<open>K \<ge> 0\<close> returns what the steps of the specification return (\<open>build\<close> with the
  partitioner of the specification): for each label \<open>k\<close> from 0 to \<open>K - 1\<close> in ascending
  order, the subset of the points labelled \<open>k\<close>, the branching factor \<open>min K N\<^sub>k\<close>, the
  child built with \<open>height - 1\<close> and stored as child \<open>k\<close>, also when \<open>N\<^sub>k = 0\<close>. For a
  configured depth of at least 1, \<open>K \<ge> 0\<close> and \<open>N \<ge> 0\<close>, \<open>vl_hikm_train\<close> stores as root
  the node built on the whole data with \<open>min (configured K) N\<close> and the configured depth.
\<close>

theorem xmeans_follows_build:
  assumes "0 \<le> hikm_M tree" and "nat N * nat (hikm_M tree) \<le> length data"
  shows "(1 \<le> height \<longrightarrow> 0 \<le> K \<longrightarrow>
            xmeans ikm tree data N K height s =
              build partitioner ikm tree data N K (nat (height - 1)) s)
         \<and> (1 \<le> hikm_depth tree \<longrightarrow> 0 \<le> hikm_K tree \<longrightarrow> 0 \<le> N \<longrightarrow>
            vl_hikm_train ikm tree data N s =
              (tree\<lparr>hikm_root := Ptr (fst (build partitioner ikm tree data N
                                              (min (hikm_K tree) N) (nat (hikm_depth tree - 1)) s))\<rparr>,
               snd (build partitioner ikm tree data N
                      (min (hikm_K tree) N) (nat (hikm_depth tree - 1)) s)))"
proof -
  have "xmeans ikm tree data N K height s =
          build partitioner ikm tree data N K (nat (height - 1)) s"
    if "1 \<le> height" "0 \<le> K" for K height
    using xmeans_refines[of height K ikm tree data N s] that build_partitioner[OF assms]
    by simp
  then show ?thesis by (simp add: vl_hikm_train_root)
qed

text \<open>Training on 0, 1, 9, 10 with \<open>K = 2\<close> and depth 2.\<close>

theorem xmeans_follows_build_witness:
  "0 \<le> hikm_M (configured 2)
   \<and> nat 4 * nat (hikm_M (configured 2)) \<le> length [0, 1, 9, 10 :: int]
   \<and> 1 \<le> hikm_depth (configured 2) \<and> 0 \<le> hikm_K (configured 2) \<and> (0::int) \<le> 4
   \<and> vl_hikm_train first_points_ikm (configured 2) [0, 1, 9, 10] 4 0 =
       ((configured 2)\<lparr>hikm_root := Ptr (fst (build partitioner first_points_ikm (configured 2)
                                                [0, 1, 9, 10] 4 2 1 0))\<rparr>,
        snd (build partitioner first_points_ikm (configured 2) [0, 1, 9, 10] 4 2 1 0))"
  using xmeans_follows_build[of "configured 2" 4 "[0, 1, 9, 10]" 2 2 first_points_ikm 0]
  by (simp add: configured_def)

text \<open>
  C4 claims that the walk of every query point records exactly \<open>D\<close> labels. In the tree
  trained on the point 5 twice with \<open>K = 2\<close> and depth 3, the query point 1 gets the label
  1 at the root and goes down to the child of the empty cluster, a node with a children
  array without a cell: after the second label line 267 reads \<open>children [best]\<close> outside
  the array, and the call has no defined result (\<open>None\<close>), although \<open>asgn\<close> has room for
  the three labels. The query point 5 stays inside the tree and gets three labels.
\<close>

theorem push_leaves_tree:
  "nat 1 * nat (vl_hikm_get_depth mean_trained_5_5) \<le> length [7, 7, 7 :: vl_uint]
   \<and> vl_hikm_push mean_ikm mean_trained_5_5 [7, 7, 7] [5] 1 = Some [0, 0, 0]
   \<and> vl_hikm_push mean_ikm mean_trained_5_5 [7, 7, 7] [1] 1 = None"
proof -
  have "vl_hikm_push mean_ikm mean_trained_5_5 [7, 7, 7] [5] 1 = Some [0, 0, 0]"
    by code_simp
  moreover have "vl_hikm_push mean_ikm mean_trained_5_5 [7, 7, 7] [1] 1 = None"
    by code_simp
  ultimately show ?thesis
    by (simp add: vl_hikm_get_depth_def mean_trained_5_5_eq)
qed



text \<open>
  C6. When every one of the \<open>N\<close> labels lies in \<open>[0, K)\<close>, the numbers that
  \<open>vl_hikm_copy_subset\<close> stores for the labels \<open>0, \<dots>, K - 1\<close> add up to \<open>N\<close>, the points of
  the \<open>K\<close> buffers together are the points of the data, each as often as it occurs
  there, and every index of a point is selected by exactly one label.
\<close>

theorem partition_complete:
  assumes "0 \<le> M" and "nat N * nat M \<le> length data" and "nat N \<le> length ids"
    and "0 \<le> N" and "K \<le> 2 ^ 32" and "\<forall>i < nat N. uint (ids ! i) < K"
  shows "(\<Sum>k \<in> {0..<K}. snd (vl_hikm_copy_subset fresh data ids N M (word_of_int k))) = N
         \<and> (\<Sum>k \<in> {0..<K}.
               mset (points_of M (fst (vl_hikm_copy_subset fresh data ids N M (word_of_int k)))
                                 (snd (vl_hikm_copy_subset fresh data ids N M (word_of_int k)))))
             = mset (points_of M data N)
         \<and> (\<forall>i < nat N. \<exists>!k. 0 \<le> k \<and> k < K \<and> i \<in> set (labelled ids N (word_of_int k)))"
proof (intro conjI allI impI)
  have all: "\<forall>i \<in> set [0..<nat N]. uint (ids ! i) < K"
    using assms(6) by simp
  have eq: "\<And>k. vl_hikm_copy_subset fresh data ids N M (word_of_int k) =
      (concat (map (point M data) (labelled ids N (word_of_int k))),
       int (length (labelled ids N (word_of_int k))))"
    by (rule vl_hikm_copy_subset_eq[OF assms(1,2)])
  show "(\<Sum>k \<in> {0..<K}. snd (vl_hikm_copy_subset fresh data ids N M (word_of_int k))) = N"
    using partition_counts[OF all assms(5)] assms(4) by (simp add: eq labelled_def)
  have inr: "\<And>i. i < nat N \<Longrightarrow> length (point M data i) = nat M"
  proof -
    fix i assume "i < nat N"
    then have "(i + 1) * nat M \<le> nat N * nat M" by (intro mult_le_mono1) simp
    with assms(2) have "(i + 1) * nat M \<le> length data" by simp
    with assms(1) show "length (point M data i) = nat M" by (rule point_in_range)
  qed
  have pts: "\<And>k. points_of M (concat (map (point M data) (labelled ids N (word_of_int k))))
                  (int (length (labelled ids N (word_of_int k))))
               = map (point M data) (labelled ids N (word_of_int k))"
  proof -
    fix k
    have "\<forall>p \<in> set (map (point M data) (labelled ids N (word_of_int k))). length p = nat M"
      using inr by (auto simp: labelled_def)
    from points_of_concat[OF assms(1) this] show "?thesis k" by simp
  qed
  have "(\<Sum>k \<in> {0..<K}.
               mset (points_of M (fst (vl_hikm_copy_subset fresh data ids N M (word_of_int k)))
                                 (snd (vl_hikm_copy_subset fresh data ids N M (word_of_int k)))))
          = (\<Sum>k \<in> {0..<K}. mset (map (point M data) (labelled ids N (word_of_int k))))"
    by (simp only: eq fst_conv snd_conv pts)
  also have "\<dots> = mset (map (point M data) [0..<nat N])"
    using partition_mset[OF all assms(5), of "point M data"] by (simp only: labelled_def)
  finally show "(\<Sum>k \<in> {0..<K}.
               mset (points_of M (fst (vl_hikm_copy_subset fresh data ids N M (word_of_int k)))
                                 (snd (vl_hikm_copy_subset fresh data ids N M (word_of_int k)))))
             = mset (points_of M data N)"
    by (simp only: points_of_def)
  fix i assume i: "i < nat N"
  then have lt: "uint (ids ! i) < K" using assms(6) by simp
  show "\<exists>!k. 0 \<le> k \<and> k < K \<and> i \<in> set (labelled ids N (word_of_int k))"
  proof (rule ex1I[of _ "uint (ids ! i)"])
    show "0 \<le> uint (ids ! i) \<and> uint (ids ! i) < K
            \<and> i \<in> set (labelled ids N (word_of_int (uint (ids ! i))))"
      using i lt by (simp add: labelled_def)
  next
    fix k assume "0 \<le> k \<and> k < K \<and> i \<in> set (labelled ids N (word_of_int k))"
    then have "0 \<le> k" "k < K" "ids ! i = word_of_int k" by (simp_all add: labelled_def)
    with label_unique[of "ids ! i" K k] lt assms(5) show "k = uint (ids ! i)" by simp
  qed
qed

text \<open>The same four points, with \<open>K = 2\<close>.\<close>

theorem partition_complete_witness:
  "(0::int) \<le> 1 \<and> nat 4 * nat 1 \<le> length [0, 1, 9, 10 :: int]
   \<and> nat 4 \<le> length [0, 1, 1, 1 :: vl_uint] \<and> (0::int) \<le> 4 \<and> (2::int) \<le> 2 ^ 32
   \<and> list_all (\<lambda>w. uint w < 2) [0, 1, 1, 1 :: vl_uint]
   \<and> (\<Sum>k \<in> {0..<2}. snd (vl_hikm_copy_subset (0::int) [0, 1, 9, 10] [0, 1, 1, 1] 4 1 (word_of_int k))) = 4"
proof -
  have "\<forall>i < nat 4. uint ([0, 1, 1, 1 :: vl_uint] ! i) < 2"
    by (simp add: less_Suc_eq numeral_eq_Suc nth_Cons' all_conj_distrib)
  then show ?thesis
    using partition_complete[of 1 4 "[0, 1, 9, 10 :: int]" "[0, 1, 1, 1]" 2 0]
    by simp
qed

text \<open>
  C7 claims that what \<open>vl_hikm_push\<close> records for a point depends on that point and the
  tree alone. In the same tree the point 5 gets the labels 0, 0, 0 when it is pushed
  together with another 5; pushed together with the point 1, whose walk leaves the children
  array of the empty cluster's node, the call has no defined result at all: the read outside
  the array is not determined by the point and the tree, and what the call leaves for the
  point 5 depends on the other query point.
\<close>

theorem push_depends_on_other_point:
  "point (vl_hikm_get_ndims mean_trained_5_5) [5, 5 :: int] 0
     = point (vl_hikm_get_ndims mean_trained_5_5) [5, 1] 0
   \<and> vl_hikm_push mean_ikm mean_trained_5_5 [7, 7, 7, 7, 7, 7] [5, 5] 2
       = Some [0, 0, 0, 0, 0, 0]
   \<and> vl_hikm_push mean_ikm mean_trained_5_5 [7, 7, 7, 7, 7, 7] [5, 1] 2 = None"
proof -
  have "vl_hikm_push mean_ikm mean_trained_5_5 [7, 7, 7, 7, 7, 7] [5, 5] 2
       = Some [0, 0, 0, 0, 0, 0]"
    by code_simp
  moreover have "vl_hikm_push mean_ikm mean_trained_5_5 [7, 7, 7, 7, 7, 7] [5, 1] 2 = None"
    by code_simp
  ultimately show ?thesis
    by (simp add: vl_hikm_get_ndims_def mean_trained_5_5_eq point_def)
qed

text \<open>
  C8, as claimed, has each node release its clustering model before its children array.
  On the tree trained on 0, 1, 9, 10 the calls of \<open>vl_hikm_delete\<close> come in another order:
  line 154 frees the children array of the root before line 157 deletes its filter.
\<close>

theorem delete_order_counterexample:
  "vl_hikm_delete first_points_ikm (Some trained_0_1_9_10)
     \<noteq> Some (destroy_order_ptr (hikm_root trained_0_1_9_10) @ [Free_tree])"
  by code_simp

text \<open>
  C8, amended. \<open>vl_hikm_delete\<close> on a tree whose root is null releases the tree record and
  nothing else. On a trained tree (a filter that keeps its \<open>K\<close>, depth at least 1,
  \<open>K \<ge> 0\<close>, \<open>N \<ge> 0\<close>) it releases, for each node, the children from the first to the last,
  each in this same order, then the children array of the node, then its filter, then the
  node; the tree record comes last.
\<close>

theorem delete_releases:
  "(hikm_root f = Null \<longrightarrow> vl_hikm_delete ikm (Some f) = Some [Free_tree])
   \<and> (ikm_keeps_K ikm \<and> 1 \<le> hikm_depth f \<and> 0 \<le> hikm_K f \<and> 0 \<le> N \<longrightarrow>
        vl_hikm_delete ikm (Some (fst (vl_hikm_train ikm f data N s)))
          = Some (released_by_ptr (hikm_root (fst (vl_hikm_train ikm f data N s))) @ [Free_tree]))"
proof (intro conjI impI)
  assume "hikm_root f = Null"
  then show "vl_hikm_delete ikm (Some f) = Some [Free_tree]"
    by (simp add: vl_hikm_delete_def)
next
  assume a: "ikm_keeps_K ikm \<and> 1 \<le> hikm_depth f \<and> 0 \<le> hikm_K f \<and> 0 \<le> N"
  let ?f = "fst (vl_hikm_train ikm f data N s)"
  have "branching_ok_ptr ikm (hikm_root ?f)"
    using a by (intro trained_branching_ok) simp_all
  then have "xdelete ikm (hikm_root ?f) = Some (released_by_ptr (hikm_root ?f))"
    by (intro xdelete_released_by) simp
  then show "vl_hikm_delete ikm (Some ?f) = Some (released_by_ptr (hikm_root ?f) @ [Free_tree])"
    by (simp add: vl_hikm_delete_def)
qed

text \<open>The configured tree without root, and the tree trained on 0, 1, 9, 10.\<close>

theorem delete_releases_witness:
  "hikm_root (configured 2) = Null
   \<and> vl_hikm_delete first_points_ikm (Some (configured 2)) = Some [Free_tree]
   \<and> 1 \<le> hikm_depth (configured 2) \<and> 0 \<le> hikm_K (configured 2) \<and> (0::int) \<le> 4
   \<and> vl_hikm_delete first_points_ikm (Some trained_0_1_9_10) =
       Some [Ikm_delete (1, [[0]]), Free_node (VlHIKMNode (Some (1, [[0]])) None),
             Ikm_delete (2, [[1], [9]]), Free_node (VlHIKMNode (Some (2, [[1], [9]])) None),
             Free_children [Ptr (VlHIKMNode (Some (1, [[0]])) None),
                            Ptr (VlHIKMNode (Some (2, [[1], [9]])) None)],
             Ikm_delete (2, [[0], [1]]),
             Free_node (VlHIKMNode (Some (2, [[0], [1]]))
               (Some [Ptr (VlHIKMNode (Some (1, [[0]])) None),
                      Ptr (VlHIKMNode (Some (2, [[1], [9]])) None)])),
             Free_tree]"
proof -
  have cfg: "hikm_root (configured 2) = Null" "1 \<le> hikm_depth (configured 2)"
    "0 \<le> hikm_K (configured 2)"
    by (simp_all add: configured_def)
  note inst = delete_releases[of "configured 2" first_points_ikm 4 "[0, 1, 9, 10]" 0]
  have a: "vl_hikm_delete first_points_ikm (Some (configured 2)) = Some [Free_tree]"
    using inst cfg by blast
  have b: "vl_hikm_delete first_points_ikm (Some trained_0_1_9_10)
             = Some (released_by_ptr (hikm_root trained_0_1_9_10) @ [Free_tree])"
    unfolding trained_0_1_9_10_def using inst cfg first_points_keeps_K by simp
  have c: "released_by_ptr (hikm_root trained_0_1_9_10) =
       [Ikm_delete (1, [[0]]), Free_node (VlHIKMNode (Some (1, [[0]])) None),
        Ikm_delete (2, [[1], [9]]), Free_node (VlHIKMNode (Some (2, [[1], [9]])) None),
        Free_children [Ptr (VlHIKMNode (Some (1, [[0]])) None),
                       Ptr (VlHIKMNode (Some (2, [[1], [9]])) None)],
        Ikm_delete (2, [[0], [1]]),
        Free_node (VlHIKMNode (Some (2, [[0], [1]]))
          (Some [Ptr (VlHIKMNode (Some (1, [[0]])) None),
                 Ptr (VlHIKMNode (Some (2, [[1], [9]])) None)]))]"
    by (simp add: trained_0_1_9_10_eq)
  show ?thesis
    using a b cfg by (simp add: c)
qed

text \<open>
  C9. On a tree whose root is null or heads a subtree in which every children array has the
  cells that its filter counts, each pointing to a node, \<open>vl_hikm_init (f, M, K, depth)\<close>
  releases the whole subtree, in the order of \<open>xdelete\<close>, and leaves a tree record with
  dimension \<open>M\<close>, branching factor \<open>K\<close>, depth \<open>depth\<close> and a null root; the other fields
  keep their values.
\<close>

theorem init_configures:
  assumes "hikm_root f = Null \<or> branching_ok_ptr ikm (hikm_root f)"
  shows "\<exists>f1. vl_hikm_init ikm f M K depth = Some (released_by_ptr (hikm_root f), f1)
           \<and> hikm_M f1 = M \<and> hikm_K f1 = K \<and> hikm_depth f1 = depth \<and> hikm_root f1 = Null
           \<and> hikm_max_niters f1 = hikm_max_niters f \<and> hikm_method f1 = hikm_method f
           \<and> hikm_verb f1 = hikm_verb f"
  using xdelete_released_by[OF assms] by (simp add: vl_hikm_init_def)

text \<open>The tree trained on 0, 1, 9, 10, configured anew with \<open>M = 3\<close>, \<open>K = 5\<close>, depth 4.\<close>

theorem init_configures_witness:
  "branching_ok_ptr first_points_ikm (hikm_root trained_0_1_9_10)
   \<and> vl_hikm_init first_points_ikm trained_0_1_9_10 3 5 4 =
       Some ([Ikm_delete (1, [[0]]), Free_node (VlHIKMNode (Some (1, [[0]])) None),
              Ikm_delete (2, [[1], [9]]), Free_node (VlHIKMNode (Some (2, [[1], [9]])) None),
              Free_children [Ptr (VlHIKMNode (Some (1, [[0]])) None),
                             Ptr (VlHIKMNode (Some (2, [[1], [9]])) None)],
              Ikm_delete (2, [[0], [1]]),
              Free_node (VlHIKMNode (Some (2, [[0], [1]]))
                (Some [Ptr (VlHIKMNode (Some (1, [[0]])) None),
                       Ptr (VlHIKMNode (Some (2, [[1], [9]])) None)]))],
             \<lparr>hikm_M = 3, hikm_K = 5, hikm_max_niters = 200, hikm_method = 0, hikm_verb = 0,
              hikm_depth = 4, hikm_root = Null\<rparr>)"
proof -
  have ok: "branching_ok_ptr first_points_ikm (hikm_root trained_0_1_9_10)"
    by (simp add: trained_0_1_9_10_eq first_points_ikm_def)
  show ?thesis
    using init_configures[OF disjI2[OF ok], of 3 5 4] ok
    by (auto simp: trained_0_1_9_10_eq)
qed

text \<open>
  C10 claims that the access \<open>node->children [best]\<close> of \<open>vl_hikm_push\<close> stays inside the
  children array. In the tree trained on the point 5 twice with \<open>K = 2\<close> and depth 3 the
  second cell of the root's children array points to the node of the empty cluster, whose
  filter has no center and whose children array has no cell. The root's filter gives the
  query point 1 the label 1, so the walk from the root enters that node; whatever label its
  filter gives (here 0) is not below the length 0 of the array, and the loop of lines
  251-268, entered at the root, reads outside it. The length of the array does equal
  \<open>vl_ikm_get_K\<close> of the filter (lemma \<open>children_array_matches_K\<close>), and \<open>xdelete\<close> visits
  exactly its cells; the labels of a filter without center cannot be below its \<open>K = 0\<close>.
\<close>

theorem children_read_outside:
  "hikm_root mean_trained_5_5 =
     Ptr (VlHIKMNode (Some (2, [[5], [0]]))
       (Some [Ptr (VlHIKMNode (Some (2, [[5], [0]]))
                (Some [Ptr (VlHIKMNode (Some (2, [[5], [0]])) None),
                       Ptr (VlHIKMNode (Some (0, [])) None)])),
              Ptr (VlHIKMNode (Some (0, [])) (Some []))]))
   \<and> unat (vl_ikm_push mean_ikm (2, [[5], [0]]) [1]) = 1
   \<and> vl_ikm_get_K mean_ikm (0, []) = 0
   \<and> unat (vl_ikm_push mean_ikm (0, []) [1]) = 0
   \<and> push_walk mean_ikm (hikm_root mean_trained_5_5) [7, 7, 7] [1] 0
         (vl_hikm_get_ndims mean_trained_5_5) (vl_hikm_get_depth mean_trained_5_5) 0 = None"
proof -
  have "push_walk mean_ikm (hikm_root mean_trained_5_5) [7, 7, 7] [1] 0
         (vl_hikm_get_ndims mean_trained_5_5) (vl_hikm_get_depth mean_trained_5_5) 0 = None"
    by code_simp
  moreover have "unat (vl_ikm_push mean_ikm (2, [[5], [0]]) [1]) = 1"
    by (simp add: mean_ikm_def dist2_def)
  moreover have "unat (vl_ikm_push mean_ikm (0, []) [1]) = 0"
    by (simp add: mean_ikm_def)
  ultimately show ?thesis
    by (simp add: mean_trained_5_5_eq mean_ikm_def)
qed

end
